theory Spec2Isabelle
  imports Main "HOL-Library.Multiset" "HOL-Library.Option_ord"
begin

section \<open>VeeBoard: the board model\<close>

text \<open>
  The board of the application is \<open>Store.state.columns\<close>: a sequence of columns, each
  with a sequence of cards. Fields that the code tests for presence or truthiness are
  optional here (\<open>None\<close> is JavaScript's \<open>undefined\<close>).

  A timestamp is an ISO string that the code reads only through its truthiness and through
  \<open>Date.parse\<close>. It is modelled as the string together with the number \<open>Date.parse\<close>
  returns for it (\<open>None\<close> when that is \<open>NaN\<close>).
\<close>

datatype tstamp = TStamp (raw: string) (millis: "int option")

record reminder =
  enabled :: bool
  offset :: int

record card =
  card_id :: string
  title :: string
  description :: "string option"
  tags :: "string list option"
  due :: "string option"
  reminder :: "reminder option"
  createdAt :: "tstamp option"
  lastChanged :: "tstamp option"
  lastChangedBy :: "string option"
  seq :: "int option"
  contentChangedAt :: "tstamp option"
  positionChangedAt :: "tstamp option"

text \<open>
  A column holds its cards as values of type \<open>'c\<close>: the cards themselves in the board,
  or the addresses of the card objects where the import merge shares objects between the
  snapshot and the board.
\<close>

record 'c column =
  col_id :: string
  col_title :: string
  cards :: "'c list"
  isDone :: "bool option"
  isArchive :: "bool option"

type_synonym board = "card column list"

text \<open>
  The mutable world of \<open>Store\<close>, \<open>Meta\<close> and \<open>Sync\<close>: the board, the sequence counter
  kept in \<open>localStorage\<close> under \<open>vee-board-seq\<close>, and the end of the echo-suppression
  window. What the backends persist is outside the model.
\<close>

record store =
  columns :: board
  seqCounter :: int
  suppressEchoUntil :: int

text \<open>
  What a call reads from its environment: \<open>Utils.nowIso()\<close>, \<open>Date.now()\<close>,
  \<open>Meta.clientId\<close>, and whether \<open>cfg.useFirebase && cfg.firebaseConfig\<close> holds.
\<close>

record env =
  nowIso :: tstamp
  nowMs :: int
  clientId :: string
  useFirebase :: bool

subsection \<open>Array helpers\<close>

text \<open>\<open>Array.prototype.findIndex\<close>; \<open>None\<close> stands for \<open>-1\<close>.\<close>

fun findIndex :: "('a \<Rightarrow> bool) \<Rightarrow> 'a list \<Rightarrow> nat option" where
  "findIndex P [] = None"
| "findIndex P (x # xs) = (if P x then Some 0 else map_option Suc (findIndex P xs))"

text \<open>\<open>Array.prototype.indexOf\<close>, with its \<open>-1\<close> for an absent element.\<close>

definition indexOf :: "'a list \<Rightarrow> 'a \<Rightarrow> int" where
  "indexOf xs x = (case findIndex (\<lambda>y. y = x) xs of None \<Rightarrow> - 1 | Some i \<Rightarrow> int i)"

text \<open>\<open>xs.splice(i, 1)\<close> and \<open>xs.splice(i, 0, x)\<close> for an index within range.\<close>

definition removeAt :: "nat \<Rightarrow> 'a list \<Rightarrow> 'a list" where
  "removeAt i xs = take i xs @ drop (Suc i) xs"

definition insertAt :: "nat \<Rightarrow> 'a \<Rightarrow> 'a list \<Rightarrow> 'a list" where
  "insertAt i x xs = take i xs @ x # drop i xs"

definition truthy :: "bool option \<Rightarrow> bool" where
  "truthy b = (b = Some True)"

subsection \<open>Sync: the echo guard\<close>

definition muteNext :: "int \<Rightarrow> int \<Rightarrow> store \<Rightarrow> store" where
  "muteNext ms now st = st\<lparr>suppressEchoUntil := now + ms\<rparr>"

definition shouldIgnore :: "int \<Rightarrow> store \<Rightarrow> bool" where
  "shouldIgnore now st = (now < suppressEchoUntil st)"

subsection \<open>Store\<close>

text \<open>
  \<open>Store.saveState\<close>: with the remote backend configured it first arms the echo guard
  for 900 ms. The write itself goes to a backend and leaves the board as it is.
\<close>

definition saveState :: "env \<Rightarrow> store \<Rightarrow> store" where
  "saveState e st = (if useFirebase e then muteNext 900 (nowMs e) st else st)"

text \<open>\<open>Meta.nextSeq\<close>: the next sequence number, and the store with the counter advanced.\<close>

definition nextSeq :: "store \<Rightarrow> int \<times> store" where
  "nextSeq st = (seqCounter st + 1, st\<lparr>seqCounter := seqCounter st + 1\<rparr>)"

text \<open>
  \<open>Store.findColumn\<close> returns the first column object with the id. Objects of the board
  are identified by their position, so the model returns the index.
\<close>

definition findColumn :: "'c column list \<Rightarrow> string \<Rightarrow> nat option" where
  "findColumn cols colId = findIndex (\<lambda>c. col_id c = colId) cols"

text \<open>\<open>Store.findCard\<close>: the first column, in board order, that holds a card with the id,
  as (column index, card index).\<close>

fun findCardFrom :: "nat \<Rightarrow> board \<Rightarrow> string \<Rightarrow> (nat \<times> nat) option" where
  "findCardFrom i [] cardId = None"
| "findCardFrom i (col # cols) cardId =
     (case findIndex (\<lambda>c. card_id c = cardId) (cards col) of
        Some k \<Rightarrow> Some (i, k)
      | None \<Rightarrow> findCardFrom (Suc i) cols cardId)"

definition findCard :: "board \<Rightarrow> string \<Rightarrow> (nat \<times> nat) option" where
  "findCard cols cardId = findCardFrom 0 cols cardId"

definition updateColumn :: "env \<Rightarrow> string \<Rightarrow> string \<Rightarrow> bool \<Rightarrow> store \<Rightarrow> store" where
  "updateColumn e colId newTitle newDone st =
     (case findColumn (columns st) colId of
        None \<Rightarrow> st
      | Some i \<Rightarrow>
          if truthy (isArchive (columns st ! i)) then st
          else
            let cols1 = (columns st)[i := (columns st ! i)\<lparr>col_title := newTitle\<rparr>];
                cols2 = (if newDone then map (\<lambda>c. c\<lparr>isDone := Some False\<rparr>) cols1 else cols1);
                cols3 = cols2[i := (cols2 ! i)\<lparr>isDone := Some newDone\<rparr>]
            in saveState e (st\<lparr>columns := cols3\<rparr>))"

definition deleteColumn :: "env \<Rightarrow> string \<Rightarrow> store \<Rightarrow> store" where
  "deleteColumn e colId st =
     (case findColumn (columns st) colId of
        None \<Rightarrow> st
      | Some i \<Rightarrow>
          if truthy (isArchive (columns st ! i)) then st
          else saveState e (st\<lparr>columns := filter (\<lambda>c. col_id c \<noteq> colId) (columns st)\<rparr>))"

text \<open>\<open>Store.deleteCard\<close>: the first column holding the card loses its first card with
  the id; nothing is saved when no column holds it.\<close>

fun deleteCardCols :: "string \<Rightarrow> board \<Rightarrow> board option" where
  "deleteCardCols cardId [] = None"
| "deleteCardCols cardId (col # cols) =
     (case findIndex (\<lambda>c. card_id c = cardId) (cards col) of
        Some k \<Rightarrow> Some (col\<lparr>cards := removeAt k (cards col)\<rparr> # cols)
      | None \<Rightarrow> map_option ((#) col) (deleteCardCols cardId cols))"

definition deleteCard :: "env \<Rightarrow> string \<Rightarrow> store \<Rightarrow> store" where
  "deleteCard e cardId st =
     (case deleteCardCols cardId (columns st) of
        None \<Rightarrow> st
      | Some cols \<Rightarrow> saveState e (st\<lparr>columns := cols\<rparr>))"

text \<open>
  \<open>Store.moveCard\<close>. The card is spliced out of the source column and stamped
  (\<open>lastChanged\<close>, \<open>lastChangedBy\<close>, \<open>seq\<close>, \<open>positionChangedAt\<close>); the length test
  reads the target column after the removal, which matters when source and target are the
  same column. \<open>toIndex\<close> is an integer.
\<close>

definition stampMove :: "env \<Rightarrow> int \<Rightarrow> card \<Rightarrow> card" where
  "stampMove e n c =
     c\<lparr>lastChanged := Some (nowIso e), lastChangedBy := Some (clientId e), seq := Some n,
       positionChangedAt := Some (nowIso e)\<rparr>"

definition placeCard :: "int \<Rightarrow> card \<Rightarrow> card list \<Rightarrow> card list" where
  "placeCard toIndex c cs =
     (if toIndex < 0 \<or> toIndex > int (length cs) then cs @ [c]
      else insertAt (nat toIndex) c cs)"

definition moveCard :: "env \<Rightarrow> string \<Rightarrow> string \<Rightarrow> string \<Rightarrow> int \<Rightarrow> store \<Rightarrow> store" where
  "moveCard e cardId fromColId toColId toIndex st =
     (case findColumn (columns st) fromColId of
        None \<Rightarrow> st
      | Some fi \<Rightarrow>
         (case findColumn (columns st) toColId of
            None \<Rightarrow> st
          | Some ti \<Rightarrow>
             (case findIndex (\<lambda>c. card_id c = cardId) (cards (columns st ! fi)) of
                None \<Rightarrow> st
              | Some k \<Rightarrow>
                  let cols = columns st;
                      c = cards (cols ! fi) ! k;
                      cols1 = cols[fi := (cols ! fi)\<lparr>cards := removeAt k (cards (cols ! fi))\<rparr>];
                      (n, st1) = nextSeq st;
                      c' = stampMove e n c;
                      cols2 = cols1[ti := (cols1 ! ti)\<lparr>cards := placeCard toIndex c' (cards (cols1 ! ti))\<rparr>]
                  in saveState e (st1\<lparr>columns := cols2\<rparr>))))"

text \<open>
  \<open>Store.reorderColumns\<close> sorts the columns in place with the comparator
  \<open>columnOrder.indexOf(a.id) - columnOrder.indexOf(b.id)\<close>. The comparator orders by an
  integer key and \<open>Array.prototype.sort\<close> is stable, so the result is the stable sort by
  that key; \<open>sort_key\<close> is the stable insertion sort of the HOL library.
\<close>

definition reorderColumns :: "env \<Rightarrow> string list \<Rightarrow> store \<Rightarrow> store" where
  "reorderColumns e columnOrder st =
     saveState e (st\<lparr>columns := sort_key (\<lambda>c. indexOf columnOrder (col_id c)) (columns st)\<rparr>)"

text \<open>
  \<open>Store.loadState\<close>. A backend call throws, returns nothing (\<open>Absent\<close>: \<open>null\<close> or
  another falsy value), returns a value that \<open>Store.validateState\<close> rejects
  (\<open>Malformed\<close>), or returns a board. \<open>getDemoState\<close> is the board that
  \<open>Store.getDemoState()\<close> returns (its ids are random).
\<close>

datatype loaded = Absent | Malformed | WellFormed board

datatype error = BackendError

record backends =
  fbLoad :: "error + loaded"
  fbSaveOk :: bool
  localLoad :: "error + loaded"
  getDemoState :: board

definition archiveColumn :: "'c column" where
  "archiveColumn =
     \<lparr>col_id = ''archive'', col_title = ''Archive'', cards = [], isDone = None,
      isArchive = Some True\<rparr>"

text \<open>The first part of \<open>loadState\<close>: which data the backends yield. An exception of
  \<open>LocalBackend.load\<close> outside the \<open>try\<close> block, or inside its \<open>catch\<close> handler,
  leaves \<open>loadState\<close>.\<close>

definition fetchState :: "env \<Rightarrow> backends \<Rightarrow> error + loaded" where
  "fetchState e b =
     (if useFirebase e then
        (case fbLoad b of
           Inl _ \<Rightarrow> localLoad b
         | Inr Absent \<Rightarrow>
             (case localLoad b of
                Inl _ \<Rightarrow> localLoad b
              | Inr local \<Rightarrow>
                  if fbSaveOk b
                  then Inr (if local = Absent then WellFormed (getDemoState b) else local)
                  else localLoad b)
         | Inr d \<Rightarrow> Inr d)
      else localLoad b)"

definition loadState :: "env \<Rightarrow> backends \<Rightarrow> store \<Rightarrow> error + store" where
  "loadState e b st =
     (case fetchState e b of
        Inl err \<Rightarrow> Inl err
      | Inr d \<Rightarrow>
          let data = (case d of WellFormed bd \<Rightarrow> bd | _ \<Rightarrow> getDemoState b);
              cols = (if \<not> list_ex (\<lambda>c. truthy (isArchive c)) data
                      then data @ [archiveColumn] else data)
          in Inr (st\<lparr>columns := cols\<rparr>))"

text \<open>\<open>Store.state\<close> after a call of \<open>loadState\<close>: a call that throws does not reach the
  assignment \<open>this.state = data\<close>.\<close>

definition stateAfterLoad :: "env \<Rightarrow> backends \<Rightarrow> store \<Rightarrow> store" where
  "stateAfterLoad e b st = (case loadState e b st of Inl err \<Rightarrow> st | Inr st' \<Rightarrow> st')"

text \<open>
  The handler that \<open>Store.startRealtime\<close> subscribes: a snapshot that arrives while the
  echo guard is active, or that is not an object (\<open>None\<close>), is dropped; any other becomes
  the state.
\<close>

definition realtimeHandler :: "int \<Rightarrow> board option \<Rightarrow> store \<Rightarrow> store" where
  "realtimeHandler now incoming st =
     (if shouldIgnore now st then st
      else case incoming of None \<Rightarrow> st | Some b \<Rightarrow> st\<lparr>columns := b\<rparr>)"

text \<open>The position that clamping \<open>toIndex\<close> into \<open>[0, n]\<close> gives, as the specification
  words the placement of \<open>moveCard\<close>.\<close>

definition clampIndex :: "int \<Rightarrow> nat \<Rightarrow> nat" where
  "clampIndex toIndex n = nat (max 0 (min toIndex (int n)))"

text \<open>The positions of the columns whose \<open>isDone\<close> is true.\<close>

definition doneColumns :: "'c column list \<Rightarrow> nat list" where
  "doneColumns cols = filter (\<lambda>j. truthy (isDone (cols ! j))) [0..<length cols]"

section \<open>Dnd: the card drag gesture\<close>

text \<open>
  The part of \<open>Dnd\<close> that decides whether a press becomes a drag. Coordinates are whole
  pixels, for which \<open>Math.hypot(dx, dy) > threshold\<close> holds exactly when
  \<open>dx * dx + dy * dy > threshold * threshold\<close>. The DOM work of the handlers (ghost,
  placeholder, pointer capture) is outside the model. A long-press timer is kept with its
  id, its delay and the press event its callback captured; it fires as the event
  \<open>timerFires\<close> unless it was cleared before.
\<close>

datatype pointerType = Mouse | Touch | Pen

record pointerEvent =
  pointerType :: pointerType
  pointerId :: int
  button :: int
  clientX :: int
  clientY :: int
  onInteractive :: bool

record drag =
  dragPointerId :: int
  startX :: int
  startY :: int
  started :: bool
  timerId :: "nat option"
  isTouch :: bool

record dnd =
  cardDrag :: "drag option"
  suppressClick :: bool
  pendingTimers :: "(nat \<times> int \<times> pointerEvent) list"
  nextTimer :: nat
  listening :: bool
  lastPointer :: "(int \<times> int) option"
  autoScroll :: bool

definition touchLongPressMs :: int where
  "touchLongPressMs = 300"

definition touchCancelThreshold :: int where
  "touchCancelThreshold = 10"

definition clearTimeout :: "nat option \<Rightarrow> dnd \<Rightarrow> dnd" where
  "clearTimeout tid d = d\<lparr>pendingTimers := filter (\<lambda>t. Some (fst t) \<noteq> tid) (pendingTimers d)\<rparr>"

text \<open>\<open>Dnd.beginCardDrag\<close>, for the drag \<open>g\<close> that \<open>Dnd.cardDrag\<close> holds.\<close>

definition beginCardDrag :: "pointerEvent \<Rightarrow> drag \<Rightarrow> dnd \<Rightarrow> dnd" where
  "beginCardDrag e g d =
     d\<lparr>cardDrag := Some (g\<lparr>started := True\<rparr>), suppressClick := True,
       lastPointer := Some (clientX e, clientY e), autoScroll := True\<rparr>"

definition startCardPotentialDrag :: "pointerEvent \<Rightarrow> dnd \<Rightarrow> dnd" where
  "startCardPotentialDrag e d =
     (if pointerType e = Mouse \<and> button e \<noteq> 0 then d
      else if onInteractive e then d
      else
        let g = \<lparr>dragPointerId = pointerId e, startX = clientX e, startY = clientY e,
                 started = False, timerId = None, isTouch = (pointerType e \<noteq> Mouse)\<rparr>
        in if isTouch g
           then d\<lparr>cardDrag := Some (g\<lparr>timerId := Some (nextTimer d)\<rparr>),
                  pendingTimers := (nextTimer d, touchLongPressMs, e) # pendingTimers d,
                  nextTimer := Suc (nextTimer d), listening := True\<rparr>
           else d\<lparr>cardDrag := Some g, listening := True\<rparr>)"

text \<open>The callback of the long-press timer with id \<open>tid\<close>.\<close>

definition timerFires :: "nat \<Rightarrow> dnd \<Rightarrow> dnd" where
  "timerFires tid d =
     (case find (\<lambda>t. fst t = tid) (pendingTimers d) of
        None \<Rightarrow> d
      | Some (_, _, e) \<Rightarrow>
          let d1 = clearTimeout (Some tid) d
          in (case cardDrag d1 of
                None \<Rightarrow> d1
              | Some g \<Rightarrow> if \<not> started g then beginCardDrag e g d1 else d1))"

definition onCardPotentialMove :: "pointerEvent \<Rightarrow> dnd \<Rightarrow> dnd" where
  "onCardPotentialMove e d =
     (case cardDrag d of
        None \<Rightarrow> d
      | Some g \<Rightarrow>
          if pointerId e \<noteq> dragPointerId g then d
          else
            let d1 = d\<lparr>lastPointer := Some (clientX e, clientY e)\<rparr>;
                dx = clientX e - startX g;
                dy = clientY e - startY g
            in if \<not> started g \<and> isTouch g
                  \<and> (\<bar>dx\<bar> > touchCancelThreshold \<or> \<bar>dy\<bar> > touchCancelThreshold)
               then (clearTimeout (timerId g) d1)\<lparr>listening := False, cardDrag := None\<rparr>
               else
                 let threshold = (if pointerType e = Mouse then 6 else 8)
                 in if dx * dx + dy * dy > threshold * threshold \<and> \<not> started g \<and> \<not> isTouch g
                    then beginCardDrag e g (clearTimeout (timerId g) d1)
                    else d1)"

text \<open>A \<open>pointermove\<close> event of the document reaches the handler while it is registered.\<close>

definition pointermove :: "pointerEvent \<Rightarrow> dnd \<Rightarrow> dnd" where
  "pointermove e d = (if listening d then onCardPotentialMove e d else d)"

text \<open>The states of the gesture: Dragging once \<open>started\<close> is set, Armed before.\<close>

definition isDragging :: "dnd \<Rightarrow> bool" where
  "isDragging d = (case cardDrag d of None \<Rightarrow> False | Some g \<Rightarrow> started g)"

definition isArmed :: "dnd \<Rightarrow> bool" where
  "isArmed d = (case cardDrag d of None \<Rightarrow> False | Some g \<Rightarrow> \<not> started g)"

section \<open>App.importJSON: the import merge\<close>

text \<open>
  \<open>normTitle\<close>: \<open>(s || "").toLowerCase().trim().replace(/\s+/g, " ")\<close>, for titles
  of ASCII characters.
\<close>

definition isSpace :: "char \<Rightarrow> bool" where
  "isSpace c = (c \<in> set [CHR 0x09, CHR 0x0A, CHR 0x0B, CHR 0x0C, CHR 0x0D, CHR '' ''])"

definition toLower :: "char \<Rightarrow> char" where
  "toLower c =
     (case map_of (zip ''ABCDEFGHIJKLMNOPQRSTUVWXYZ'' ''abcdefghijklmnopqrstuvwxyz'') c of
        Some l \<Rightarrow> l
      | None \<Rightarrow> c)"

fun collapseSpaces :: "bool \<Rightarrow> string \<Rightarrow> string" where
  "collapseSpaces inRun [] = []"
| "collapseSpaces inRun (c # cs) =
     (if isSpace c then (if inRun then collapseSpaces True cs else CHR '' '' # collapseSpaces True cs)
      else c # collapseSpaces False cs)"

definition trim :: "string \<Rightarrow> string" where
  "trim s = rev (dropWhile isSpace (rev (dropWhile isSpace s)))"

definition normTitle :: "string \<Rightarrow> string" where
  "normTitle s = collapseSpaces False (trim (map toLower s))"

text \<open>\<open>timeVal\<close>: \<open>t ? Date.parse(t) || 0 : 0\<close>.\<close>

definition timeVal :: "tstamp option \<Rightarrow> int" where
  "timeVal t =
     (case t of
        None \<Rightarrow> 0
      | Some ts \<Rightarrow> if raw ts = [] then 0 else (case millis ts of None \<Rightarrow> 0 | Some n \<Rightarrow> n))"

text \<open>\<open>sa > sb\<close> for \<open>Number.isFinite(A.seq) ? A.seq : -Infinity\<close>; \<open>None\<close> is \<open>-Infinity\<close>.\<close>

fun seqGreater :: "int option \<Rightarrow> int option \<Rightarrow> bool" where
  "seqGreater (Some a) (Some b) = (a > b)"
| "seqGreater (Some a) None = True"
| "seqGreater None _ = False"

text \<open>\<open>ca > cb\<close> on strings: the comparison of JavaScript, code unit by code unit.\<close>

fun strGreater :: "string \<Rightarrow> string \<Rightarrow> bool" where
  "strGreater [] _ = False"
| "strGreater (x # xs) [] = True"
| "strGreater (x # xs) (y # ys) =
     (if x = y then strGreater xs ys else (of_char x :: nat) > of_char y)"

text \<open>\<open>s || ""\<close>.\<close>

definition orEmpty :: "string option \<Rightarrow> string" where
  "orEmpty s = (case s of None \<Rightarrow> [] | Some v \<Rightarrow> v)"

definition contentTime :: "card \<Rightarrow> int" where
  "contentTime A = max (max (timeVal (contentChangedAt A)) (timeVal (lastChanged A))) (timeVal (createdAt A))"

definition isContentANewer :: "card \<Rightarrow> card \<Rightarrow> bool" where
  "isContentANewer A B =
     (let ta = contentTime A; tb = contentTime B
      in if ta \<noteq> tb then ta > tb
         else if seq A \<noteq> seq B then seqGreater (seq A) (seq B)
         else strGreater (orEmpty (lastChangedBy A)) (orEmpty (lastChangedBy B)))"

definition isPositionANewer :: "card \<Rightarrow> card \<Rightarrow> bool" where
  "isPositionANewer A B =
     (let ta = timeVal (positionChangedAt A); tb = timeVal (positionChangedAt B)
      in if ta \<noteq> tb then ta > tb
         else
           let fa = timeVal (lastChanged A); fb = timeVal (lastChanged B)
           in if fa \<noteq> fb then fa > fb
              else if seq A \<noteq> seq B then seqGreater (seq A) (seq B)
              else strGreater (orEmpty (lastChangedBy A)) (orEmpty (lastChangedBy B)))"

text \<open>Truthiness of a timestamp and of a string: present and not empty.\<close>

definition truthyT :: "tstamp option \<Rightarrow> bool" where
  "truthyT t = (case t of None \<Rightarrow> False | Some ts \<Rightarrow> raw ts \<noteq> [])"

definition truthyS :: "string option \<Rightarrow> bool" where
  "truthyS s = (case s of None \<Rightarrow> False | Some v \<Rightarrow> v \<noteq> [])"

text \<open>The assignments of the merge when the incoming card is newer in content.\<close>

definition overwriteContent :: "card \<Rightarrow> card \<Rightarrow> card" where
  "overwriteContent inc ex =
     ex\<lparr>title := title inc,
        description := description inc,
        tags := Some (case tags inc of Some ts \<Rightarrow> ts | None \<Rightarrow> []),
        due := Some (orEmpty (due inc)),
        reminder := reminder inc,
        createdAt := (if truthyT (createdAt inc) then createdAt inc else createdAt ex),
        lastChanged := (if truthyT (lastChanged inc) then lastChanged inc else lastChanged ex),
        seq := (if seq inc \<noteq> None then seq inc else seq ex),
        lastChangedBy :=
          (if truthyS (lastChangedBy inc) then lastChangedBy inc else lastChangedBy ex),
        contentChangedAt :=
          (if truthyT (contentChangedAt inc) then contentChangedAt inc else contentChangedAt ex),
        positionChangedAt :=
          (if truthyT (positionChangedAt inc) then positionChangedAt inc
           else positionChangedAt ex)\<rparr>"

text \<open>
  During the merge the snapshot and the board share objects: an incoming column that
  matches no column of the board is pushed onto the board as it is, and an incoming card
  that is new is pushed into its target column as it is. The merge therefore runs on card
  objects in a heap; a column holds the addresses of its cards. Column objects are
  identified by their position in \<open>Store.state.columns\<close>, which only grows.
\<close>

type_synonym addr = nat

record mstate =
  mcols :: "addr column list"
  mheap :: "addr \<Rightarrow> card"

text \<open>\<open>Store.findCard\<close> on the heap: the address of the card and the index of its column.\<close>

fun findCardIn :: "(addr \<Rightarrow> card) \<Rightarrow> nat \<Rightarrow> addr column list \<Rightarrow> string \<Rightarrow> (addr \<times> nat) option" where
  "findCardIn h i [] x = None"
| "findCardIn h i (col # cols) x =
     (case find (\<lambda>a. card_id (h a) = x) (cards col) of
        Some a \<Rightarrow> Some (a, i)
      | None \<Rightarrow> findCardIn h (Suc i) cols x)"

definition pushCard :: "nat \<Rightarrow> addr \<Rightarrow> addr column list \<Rightarrow> addr column list" where
  "pushCard t a cols = cols[t := (cols ! t)\<lparr>cards := cards (cols ! t) @ [a]\<rparr>]"

definition dropCards :: "nat \<Rightarrow> string \<Rightarrow> (addr \<Rightarrow> card) \<Rightarrow> addr column list \<Rightarrow> addr column list" where
  "dropCards ci x h cols =
     cols[ci := (cols ! ci)\<lparr>cards := filter (\<lambda>b. card_id (h b) \<noteq> x) (cards (cols ! ci))\<rparr>]"

text \<open>The body of \<open>incCol.cards.forEach\<close>, for the target column at index \<open>t\<close> and the
  incoming card object at address \<open>a\<close>.\<close>

definition mergeCard :: "nat \<Rightarrow> addr \<Rightarrow> mstate \<Rightarrow> mstate" where
  "mergeCard t a st =
     (case findCardIn (mheap st) 0 (mcols st) (card_id (mheap st a)) of
        None \<Rightarrow> st\<lparr>mcols := pushCard t a (mcols st)\<rparr>
      | Some (ea, ci) \<Rightarrow>
          let h1 = (if isContentANewer (mheap st a) (mheap st ea)
                    then (mheap st)(ea := overwriteContent (mheap st a) (mheap st ea))
                    else mheap st);
              shouldMove = (col_id (mcols st ! ci) \<noteq> col_id (mcols st ! t)
                            \<and> isPositionANewer (h1 a) (h1 ea))
          in if shouldMove
             then \<lparr>mcols = pushCard t ea (dropCards ci (card_id (h1 ea)) h1 (mcols st)),
                   mheap = h1\<rparr>
             else st\<lparr>mheap := h1\<rparr>)"

text \<open>\<open>new Map(columns.map((c) => [key(c), c]))\<close>: a later column replaces an earlier one
  with the same key.\<close>

definition indexMap :: "('c column \<Rightarrow> string) \<Rightarrow> 'c column list \<Rightarrow> (string \<rightharpoonup> nat)" where
  "indexMap key cols = fold (\<lambda>(i, c) m. m(key c \<mapsto> i)) (enumerate 0 cols) Map.empty"

text \<open>An incoming column object: still only in the snapshot, or pushed onto the board
  and then the board's column at that index.\<close>

datatype colref = Snap "addr column" | Pushed nat

record targets =
  tcols :: "addr column list"
  byId :: "string \<rightharpoonup> nat"
  byTitle :: "string \<rightharpoonup> nat"

text \<open>Step 2 of the merge for one incoming column.\<close>

definition decideTarget :: "addr column \<Rightarrow> colref list \<times> targets \<Rightarrow> colref list \<times> targets" where
  "decideTarget incCol rt =
     (let (refs, tg) = rt
      in case byId tg (col_id incCol) of
           Some t \<Rightarrow> (refs @ [Snap incCol], tg)
         | None \<Rightarrow>
            (case byTitle tg (normTitle (col_title incCol)) of
               Some t \<Rightarrow> (refs @ [Snap incCol], tg)
             | None \<Rightarrow>
                 (refs @ [Pushed (length (tcols tg))],
                  \<lparr>tcols = tcols tg @ [incCol],
                   byId = (byId tg)(col_id incCol \<mapsto> length (tcols tg)),
                   byTitle = (byTitle tg)(normTitle (col_title incCol) \<mapsto> length (tcols tg))\<rparr>)))"

definition colOf :: "colref \<Rightarrow> addr column list \<Rightarrow> addr column" where
  "colOf r cols = (case r of Snap c \<Rightarrow> c | Pushed p \<Rightarrow> cols ! p)"

text \<open>The target column of an incoming column: \<open>existingById.get(incCol.id)\<close>, and
  failing that \<open>existingByTitle.get(normTitle(incCol.title))\<close>.\<close>

definition targetOf :: "targets \<Rightarrow> 'c column \<Rightarrow> nat option" where
  "targetOf tg incCol =
     (case byId tg (col_id incCol) of
        Some t \<Rightarrow> Some t
      | None \<Rightarrow> byTitle tg (normTitle (col_title incCol)))"

text \<open>Step 3 of the merge for one incoming column: \<open>forEach\<close> visits the cards that
  the column's array holds when the iteration starts.\<close>

definition mergeColumn :: "targets \<Rightarrow> colref \<Rightarrow> mstate \<Rightarrow> mstate" where
  "mergeColumn tg r st =
     (let incCol = colOf r (mcols st)
      in case targetOf tg incCol of
           None \<Rightarrow> st
         | Some t \<Rightarrow> fold (mergeCard t) (cards incCol) st)"

definition mergeHeap :: "addr column list \<Rightarrow> mstate \<Rightarrow> mstate" where
  "mergeHeap incoming st =
     (let (refs, tg) =
            fold decideTarget incoming
              ([], \<lparr>tcols = mcols st, byId = indexMap col_id (mcols st),
                    byTitle = indexMap (\<lambda>c. normTitle (col_title c)) (mcols st)\<rparr>)
      in fold (mergeColumn tg) refs (st\<lparr>mcols := tcols tg\<rparr>))"

text \<open>Parsing gives every card an object of its own: the cards of a board get consecutive
  addresses from \<open>n\<close> on.\<close>

definition withCards :: "'c column \<Rightarrow> 'd list \<Rightarrow> 'd column" where
  "withCards c cs =
     \<lparr>col_id = col_id c, col_title = col_title c, cards = cs, isDone = isDone c,
      isArchive = isArchive c\<rparr>"

fun allocCols :: "nat \<Rightarrow> board \<Rightarrow> addr column list" where
  "allocCols n [] = []"
| "allocCols n (c # cs) =
     withCards c [n ..< n + length (cards c)] # allocCols (n + length (cards c)) cs"

definition allCards :: "'c column list \<Rightarrow> 'c list" where
  "allCards cols = concat (map cards cols)"

definition readBoard :: "mstate \<Rightarrow> board" where
  "readBoard st = map (\<lambda>c. withCards c (map (mheap st) (cards c))) (mcols st)"

text \<open>The merge branch of \<open>App.importJSON\<close>: the board after merging the snapshot
  \<open>incoming\<close> into the board \<open>current\<close>.\<close>

definition importMerge :: "board \<Rightarrow> board \<Rightarrow> board" where
  "importMerge current incoming =
     readBoard
       (mergeHeap (allocCols (length (allCards current)) incoming)
          \<lparr>mcols = allocCols 0 current,
           mheap = (\<lambda>a. (allCards current @ allCards incoming) ! a)\<rparr>)"

datatype choice = Cancel | Replace | Merge

text \<open>\<open>App.importJSON\<close>: a file that does not parse or does not validate, and the choice
  to cancel, leave the store as it is.\<close>

definition importJSON :: "env \<Rightarrow> loaded \<Rightarrow> choice \<Rightarrow> store \<Rightarrow> store" where
  "importJSON e file ch st =
     (case file of
        WellFormed incoming \<Rightarrow>
          (case ch of
             Cancel \<Rightarrow> st
           | Replace \<Rightarrow> saveState e (st\<lparr>columns := incoming\<rparr>)
           | Merge \<Rightarrow> saveState e (st\<lparr>columns := importMerge (columns st) incoming\<rparr>))
      | _ \<Rightarrow> st)"

section \<open>Example data\<close>

text \<open>A card with the fields of a demo card, which carries no merge metadata.\<close>

definition plainCard :: "string \<Rightarrow> string \<Rightarrow> card" where
  "plainCard i t =
     \<lparr>card_id = i, title = t, description = Some [], tags = Some [], due = Some [],
      reminder = None, createdAt = None, lastChanged = None, lastChangedBy = None,
      seq = None, contentChangedAt = None, positionChangedAt = None\<rparr>"

definition plainColumn :: "string \<Rightarrow> string \<Rightarrow> 'c list \<Rightarrow> 'c column" where
  "plainColumn i t cs = \<lparr>col_id = i, col_title = t, cards = cs, isDone = None, isArchive = None\<rparr>"

definition demoBoard :: board where
  "demoBoard =
     [plainColumn ''a'' ''Todo'' [plainCard ''k1'' ''one'', plainCard ''k2'' ''two''],
      plainColumn ''b'' ''Doing'' [plainCard ''k3'' ''three''],
      archiveColumn]"

definition demoStore :: store where
  "demoStore = \<lparr>columns = demoBoard, seqCounter = 0, suppressEchoUntil = 0\<rparr>"

definition demoEnv :: env where
  "demoEnv =
     \<lparr>nowIso = TStamp ''2025-01-01T00:00:00.000Z'' (Some 1735689600000),
      nowMs = 1735689600000, clientId = ''c_local'', useFirebase = True\<rparr>"

lemmas demo_defs =
  demoStore_def demoBoard_def demoEnv_def plainColumn_def plainCard_def archiveColumn_def

definition demoBackends :: backends where
  "demoBackends =
     \<lparr>fbLoad = Inl BackendError, fbSaveOk = False,
      localLoad = Inr (WellFormed [plainColumn ''a'' ''Todo'' [plainCard ''k1'' ''one'']]),
      getDemoState = demoBoard\<rparr>"

text \<open>A store whose first column has the id of the archive column without being it; the
  backends when \<open>LocalBackend.load\<close> throws on unparsable storage; and the store of a page
  that has not loaded its state.\<close>

definition shadowedArchiveStore :: store where
  "shadowedArchiveStore = demoStore\<lparr>columns := [plainColumn ''archive'' ''Todo'' [], archiveColumn]\<rparr>"

definition brokenBackends :: backends where
  "brokenBackends = demoBackends\<lparr>localLoad := Inl BackendError\<rparr>"

definition freshStore :: store where
  "freshStore = \<lparr>columns = [], seqCounter = 0, suppressEchoUntil = 0\<rparr>"

definition idleDnd :: dnd where
  "idleDnd = \<lparr>cardDrag = None, suppressClick = False, pendingTimers = [], nextTimer = 0,
     listening = False, lastPointer = None, autoScroll = False\<rparr>"

definition touchAt :: "int \<Rightarrow> int \<Rightarrow> pointerEvent" where
  "touchAt x y = \<lparr>pointerType = Touch, pointerId = 1, button = 0, clientX = x, clientY = y,
     onInteractive = False\<rparr>"

section \<open>Notions used in the statements and proofs\<close>

text \<open>
  The content key as the specification words it, written without the helpers of the code:
  \<open>(max(contentChangedAt, lastChanged, createdAt), seq, lastChangedBy)\<close>. A timestamp
  counts with the time it denotes in milliseconds, and with 0 when it is absent, empty or
  unreadable; an absent origin id counts as the empty string.
\<close>

fun specTime :: "tstamp option \<Rightarrow> int" where
  "specTime (Some (TStamp (c # cs) (Some n))) = n"
| "specTime _ = 0"

definition specContentKey :: "card \<Rightarrow> int \<times> int option \<times> string" where
  "specContentKey c =
     (Max {specTime (contentChangedAt c), specTime (lastChanged c), specTime (createdAt c)},
      seq c,
      (case lastChangedBy c of None \<Rightarrow> [] | Some s \<Rightarrow> s))"

text \<open>
  The order of the keys, compared field by field: the timestamp first, then the sequence
  number (in the order of \<open>int option\<close>, where an absent number is below every number),
  then the origin id in the lexicographic order of the code units.
\<close>

definition specKeyGreater ::
  "int \<times> int option \<times> string \<Rightarrow> int \<times> int option \<times> string \<Rightarrow> bool" where
  "specKeyGreater k1 k2 =
     (case (k1, k2) of
        ((t1, s1, o1), (t2, s2, o2)) \<Rightarrow>
          t2 < t1
          \<or> (t1 = t2
              \<and> (s2 < s1
                  \<or> (s1 = s2 \<and> (o2, o1) \<in> lexord {(x, y). (of_char x :: nat) < of_char y}))))"

text \<open>The content fields of a card, and the values the merge writes into them from an
  incoming card.\<close>

definition contentFields ::
  "card \<Rightarrow> string \<times> string option \<times> string list option \<times> string option \<times> reminder option" where
  "contentFields c = (title c, description c, tags c, due c, reminder c)"

definition incomingContent ::
  "card \<Rightarrow> string \<times> string option \<times> string list option \<times> string option \<times> reminder option" where
  "incomingContent c =
     (title c, description c, Some (case tags c of Some ts \<Rightarrow> ts | None \<Rightarrow> []),
      Some (case due c of Some v \<Rightarrow> v | None \<Rightarrow> []), reminder c)"

text \<open>The card ids of a board, and of the board that a merge state holds.\<close>

definition cardIds :: "board \<Rightarrow> string set" where
  "cardIds b = set (map card_id (allCards b))"

definition heapIds :: "mstate \<Rightarrow> string set" where
  "heapIds st = (\<lambda>a. card_id (mheap st a)) ` set (allCards (mcols st))"

text \<open>What the content comparison of a visit leaves in the existing card.\<close>

definition contentStep :: "card \<Rightarrow> card \<Rightarrow> card" where
  "contentStep inc ex = (if isContentANewer inc ex then overwriteContent inc ex else ex)"

text \<open>The maps of step 1 and 2 are, at every moment, the index maps of the columns.\<close>

definition mapsOf :: "addr column list \<Rightarrow> targets" where
  "mapsOf cols =
     \<lparr>tcols = cols, byId = indexMap col_id cols,
      byTitle = indexMap (\<lambda>c. normTitle (col_title c)) cols\<rparr>"

text \<open>What step 2 has established once it has gone through the incoming columns \<open>seen\<close>.\<close>

definition decided :: "addr column list \<Rightarrow> addr column list \<Rightarrow> colref list \<times> targets \<Rightarrow> bool" where
  "decided cols0 seen rt \<longleftrightarrow>
     (let (refs, tg) = rt
      in tg = mapsOf (tcols tg)
       \<and> length refs = length seen
       \<and> take (length cols0) (tcols tg) = cols0
       \<and> length cols0 \<le> length (tcols tg)
       \<and> (\<forall>i < length seen.
            refs ! i = Snap (seen ! i) \<and> targetOf tg (seen ! i) \<noteq> None
            \<or> (\<exists>p. refs ! i = Pushed p \<and> length cols0 \<le> p \<and> p < length (tcols tg)
                   \<and> tcols tg ! p = seen ! i)))"

text \<open>Cards with merge metadata: content and position timestamps in milliseconds after
  the epoch, a sequence number and an origin id.\<close>

definition isoTime :: "int \<Rightarrow> tstamp" where
  "isoTime s =
     (if s = 1 then TStamp ''1970-01-01T00:00:01.000Z'' (Some 1000)
      else if s = 2 then TStamp ''1970-01-01T00:00:02.000Z'' (Some 2000)
      else TStamp ''1970-01-01T00:00:03.000Z'' (Some 3000))"

definition stampedCard :: "string \<Rightarrow> string \<Rightarrow> int \<Rightarrow> int \<Rightarrow> int \<Rightarrow> string \<Rightarrow> card" where
  "stampedCard i t content pos n origin =
     \<lparr>card_id = i, title = t, description = Some [], tags = Some [], due = Some [],
      reminder = None, createdAt = None, lastChanged = None, lastChangedBy = Some origin,
      seq = Some n, contentChangedAt = Some (isoTime content),
      positionChangedAt = Some (isoTime pos)\<rparr>"

text \<open>A card of the snapshot is settled for a target column when the visit of it finds a
  card with its id and changes neither that card nor its place.\<close>

definition settledFor :: "mstate \<Rightarrow> nat \<Rightarrow> card \<Rightarrow> bool" where
  "settledFor st t c \<longleftrightarrow>
     (\<exists>f ci. findCardIn (mheap st) 0 (mcols st) (card_id c) = Some (f, ci)
        \<and> contentStep c (mheap st f) = mheap st f
        \<and> (col_id (mcols st ! ci) = col_id (mcols st ! t) \<or> \<not> isPositionANewer c (mheap st f)))"

text \<open>
  The state of a merge run whose heap started as \<open>h0\<close> with the cards of the board at
  the addresses below \<open>nB\<close> and the \<open>nS\<close> cards of the snapshot above: the board holds
  each address at most once, ids are as at the start, and the cards of the snapshot are as
  at the start.
\<close>

definition wfRun :: "nat \<Rightarrow> nat \<Rightarrow> (addr \<Rightarrow> card) \<Rightarrow> mstate \<Rightarrow> bool" where
  "wfRun nB nS h0 st \<longleftrightarrow>
     set (allCards (mcols st)) \<subseteq> {..< nB + nS}
     \<and> distinct (allCards (mcols st))
     \<and> (\<forall>a. card_id (mheap st a) = card_id (h0 a))
     \<and> (\<forall>a. nB \<le> a \<longrightarrow> mheap st a = h0 a)"

text \<open>Card ids are unique among the cards of the board and among those of the snapshot.\<close>

definition uniqueIds :: "nat \<Rightarrow> nat \<Rightarrow> (addr \<Rightarrow> card) \<Rightarrow> bool" where
  "uniqueIds nB nS h0 \<longleftrightarrow>
     (\<forall>a b. a < nB + nS \<and> b < nB + nS \<and> card_id (h0 a) = card_id (h0 b)
        \<and> (a < nB \<longleftrightarrow> b < nB) \<longrightarrow> a = b)"

text \<open>The order in which step 2 pushed columns: a pushed column matched nothing among
  the columns before it, and the incoming columns seen before it are matched or pushed
  there.\<close>

definition pushOrder :: "addr column list \<Rightarrow> colref list \<times> targets \<Rightarrow> bool" where
  "pushOrder seen rt \<longleftrightarrow>
     (let (refs, tg) = rt
      in \<forall>i < length seen. \<forall>p. refs ! i = Pushed p \<longrightarrow>
           targetOf (mapsOf (take p (tcols tg))) (seen ! i) = None
           \<and> (\<forall>j < i. (\<forall>q. refs ! j = Pushed q \<longrightarrow> q < p)
                 \<and> (refs ! j = Snap (seen ! j) \<longrightarrow>
                      targetOf (mapsOf (take p (tcols tg))) (seen ! j) \<noteq> None)))"

text \<open>A card of the board is the first of its id when \<open>Store.findCard\<close> with its id finds
  the card itself.\<close>

definition firstOfId :: "mstate \<Rightarrow> addr \<Rightarrow> bool" where
  "firstOfId st e \<longleftrightarrow>
     (\<exists>ci. findCardIn (mheap st) 0 (mcols st) (card_id (mheap st e)) = Some (e, ci))"

text \<open>A column that step 2 pushed and step 3 has not visited holds the cards \<open>L\<close> that it
  came with, followed by cards that earlier visits put there; each of these is the first of
  its id, and its id is among the ids \<open>V\<close> of the cards visited.\<close>

definition pendingCol :: "string set \<Rightarrow> mstate \<Rightarrow> nat \<Rightarrow> addr list \<Rightarrow> bool" where
  "pendingCol V st p L \<longleftrightarrow>
     (\<exists>ex. cards (mcols st ! p) = L @ ex
        \<and> (\<forall>e \<in> set ex. firstOfId st e \<and> card_id (mheap st e) \<in> V))"

text \<open>The ids of the cards of the first \<open>k\<close> incoming columns.\<close>

definition visitedIds :: "(addr \<Rightarrow> card) \<Rightarrow> addr column list \<Rightarrow> nat \<Rightarrow> string set" where
  "visitedIds h0 inc k = (\<lambda>a. card_id (h0 a)) ` set (allCards (take k inc))"

text \<open>What holds when step 3 has gone through the first \<open>k\<close> incoming columns: their
  cards are settled, the columns pushed for the later ones are pending, and the cards of the
  later ones that matched a column are not on the board.\<close>

definition outerInv ::
  "nat \<Rightarrow> nat \<Rightarrow> (addr \<Rightarrow> card) \<Rightarrow> addr column list \<Rightarrow> colref list \<Rightarrow> targets \<Rightarrow> nat \<Rightarrow> mstate \<Rightarrow> bool" where
  "outerInv nB nS h0 inc refs tg k st \<longleftrightarrow>
     wfRun nB nS h0 st
     \<and> length (mcols st) = length (tcols tg)
     \<and> (\<forall>j. col_id (mcols st ! j) = col_id (tcols tg ! j)
            \<and> col_title (mcols st ! j) = col_title (tcols tg ! j))
     \<and> (\<forall>i < k. \<forall>t a. targetOf tg (inc ! i) = Some t \<longrightarrow> a \<in> set (cards (inc ! i))
            \<longrightarrow> settledFor st t (h0 a))
     \<and> (\<forall>i p. k \<le> i \<longrightarrow> i < length inc \<longrightarrow> refs ! i = Pushed p
            \<longrightarrow> pendingCol (visitedIds h0 inc k) st p (cards (inc ! i)))
     \<and> (\<forall>i. k \<le> i \<longrightarrow> i < length inc \<longrightarrow> refs ! i = Snap (inc ! i)
            \<longrightarrow> set (cards (inc ! i)) \<inter> set (allCards (mcols st)) = {})"

text \<open>
  Boards for the merge: a board with the card \<open>x\<close> in its second column; a snapshot that
  holds a card with the id \<open>x\<close> in both of its columns, with a newer position stamp in each
  than the board has, the newest in the first column; and a snapshot with a newer \<open>x\<close> in
  the first column.
\<close>

definition dupBoard :: board where
  "dupBoard =
     [plainColumn ''a'' ''A'' [], plainColumn ''b'' ''B'' [stampedCard ''x'' ''X'' 1 1 1 ''c1'']]"

definition dupSnapshot :: board where
  "dupSnapshot =
     [plainColumn ''a'' ''A'' [stampedCard ''x'' ''X'' 1 3 1 ''c1''],
      plainColumn ''b'' ''B''
        [stampedCard ''x'' ''X'' 1 2 1 ''c1'', stampedCard ''y'' ''Y'' 1 1 1 ''c1'']]"

definition movedSnapshot :: board where
  "movedSnapshot =
     [plainColumn ''a'' ''A'' [stampedCard ''x'' ''X2'' 2 3 2 ''c2''],
      plainColumn ''b'' ''B'' [stampedCard ''y'' ''Y'' 1 1 1 ''c1'']]"

text \<open>
  A board and a snapshot with one card each, both with the id \<open>x\<close>, the snapshot's in a
  column that the board does not have; and a later snapshot whose \<open>x\<close> has the content
  stamp of the board's card and a newer position stamp.
\<close>

definition twinBoard :: board where
  "twinBoard = [plainColumn ''a'' ''A'' [stampedCard ''x'' ''B'' 2 1 1 ''c1'']]"

definition twinSnapshot :: board where
  "twinSnapshot = [plainColumn ''n'' ''N'' [stampedCard ''x'' ''C'' 1 1 1 ''c1'']]"

definition laterSnapshot :: board where
  "laterSnapshot = [plainColumn ''n'' ''N'' [stampedCard ''x'' ''B'' 2 3 1 ''c1'']]"

section \<open>Properties of the board operations\<close>

lemma findIndex_None_iff: "findIndex P xs = None \<longleftrightarrow> (\<forall>x \<in> set xs. \<not> P x)"
  by (induction xs) auto

lemma findIndex_Some_less: "findIndex P xs = Some i \<Longrightarrow> i < length xs \<and> P (xs ! i)"
  by (induction xs arbitrary: i) (auto split: if_splits)

text \<open>
  C9. A \<open>moveCard\<close> whose source column id is unknown, whose target column id is
  unknown, or whose card is not in the source column returns the store it was given: the
  board with every card's timestamps and sequence number, the sequence counter and the echo
  guard are all unchanged. The model is total, so the call does not throw.
\<close>

theorem moveCard_guard_noop:
  assumes "findColumn (columns st) fromColId = None
         \<or> findColumn (columns st) toColId = None
         \<or> (\<exists>fi. findColumn (columns st) fromColId = Some fi
               \<and> (\<forall>c \<in> set (cards (columns st ! fi)). card_id c \<noteq> cardId))"
  shows "moveCard e cardId fromColId toColId toIndex st = st"
proof -
  from assms consider (a) "findColumn (columns st) fromColId = None"
    | (b) "findColumn (columns st) toColId = None"
    | (c) fi where "findColumn (columns st) fromColId = Some fi"
        "\<forall>c \<in> set (cards (columns st ! fi)). card_id c \<noteq> cardId"
    by auto
  then show ?thesis
  proof cases
    case a
    then show ?thesis by (simp add: moveCard_def)
  next
    case b
    then show ?thesis by (simp add: moveCard_def split: option.splits)
  next
    case c
    from c(2) have "findIndex (\<lambda>x. card_id x = cardId) (cards (columns st ! fi)) = None"
      by (simp add: findIndex_None_iff)
    with c(1) show ?thesis by (simp add: moveCard_def split: option.splits)
  qed
qed

theorem moveCard_guard_noop_witness:
  "findColumn (columns demoStore) ''zz'' = None
   \<and> moveCard demoEnv ''k1'' ''zz'' ''a'' 0 demoStore = demoStore"
  using moveCard_guard_noop [of demoStore "''zz''" "''a''" "''k1''" demoEnv 0]
  by (simp add: demo_defs findColumn_def)

subsection \<open>Reordering columns\<close>

lemma indexOf_ge: "- 1 \<le> indexOf xs x"
  by (simp add: indexOf_def split: option.splits)

lemma indexOf_absent: "indexOf xs x = - 1 \<longleftrightarrow> x \<notin> set xs"
  by (auto simp: indexOf_def findIndex_None_iff split: option.splits dest!: findIndex_Some_less)

lemma sorted_map_const:
  fixes f :: "'a \<Rightarrow> int"
  shows "\<forall>x \<in> set ys. f x = m \<Longrightarrow> sorted (map f ys)"
  by (induction ys) auto

text \<open>A stable sort by a key with least value \<open>m\<close> puts the elements of key \<open>m\<close> first,
  in their original order.\<close>

lemma sort_key_min_first:
  fixes f :: "'a \<Rightarrow> int"
  assumes "\<And>x. m \<le> f x"
  shows "sort_key f xs = filter (\<lambda>x. f x = m) xs @ sort_key f (filter (\<lambda>x. f x \<noteq> m) xs)"
proof (rule properties_for_sort_key)
  show "mset (filter (\<lambda>x. f x = m) xs @ sort_key f (filter (\<lambda>x. f x \<noteq> m) xs)) = mset xs"
    by simp
next
  fix k
  assume "k \<in> set (filter (\<lambda>x. f x = m) xs @ sort_key f (filter (\<lambda>x. f x \<noteq> m) xs))"
  show "filter (\<lambda>x. f k = f x) (filter (\<lambda>x. f x = m) xs @ sort_key f (filter (\<lambda>x. f x \<noteq> m) xs))
      = filter (\<lambda>x. f k = f x) xs"
  proof (cases "f k = m")
    case True
    have "filter (\<lambda>x. f k = f x) (sort_key f (filter (\<lambda>x. f x \<noteq> m) xs)) = []"
      using True by (auto simp: filter_empty_conv)
    moreover have "filter (\<lambda>x. f k = f x) (filter (\<lambda>x. f x = m) xs) = filter (\<lambda>x. f k = f x) xs"
      using True by (auto intro: filter_cong)
    ultimately show ?thesis by simp
  next
    case False
    have "filter (\<lambda>x. f k = f x) (filter (\<lambda>x. f x = m) xs) = []"
      using False by (auto simp: filter_empty_conv)
    moreover have "filter (\<lambda>x. f k = f x) (sort_key f (filter (\<lambda>x. f x \<noteq> m) xs))
        = filter (\<lambda>x. f k = f x) xs"
    proof -
      have "filter (\<lambda>x. f k = f x) (sort_key f (filter (\<lambda>x. f x \<noteq> m) xs))
          = filter (\<lambda>x. f x = f k) (sort_key f (filter (\<lambda>x. f x \<noteq> m) xs))"
        by (auto intro: filter_cong)
      also have "\<dots> = filter (\<lambda>x. f x = f k) (filter (\<lambda>x. f x \<noteq> m) xs)"
        by (rule sort_key_stable)
      also have "\<dots> = filter (\<lambda>x. f k = f x) xs"
        using False by (auto intro: filter_cong)
      finally show ?thesis .
    qed
    ultimately show ?thesis by simp
  qed
next
  show "sorted (map f (filter (\<lambda>x. f x = m) xs @ sort_key f (filter (\<lambda>x. f x \<noteq> m) xs)))"
  proof -
    have "sorted (map f (filter (\<lambda>x. f x = m) xs))"
      by (rule sorted_map_const [where m = m]) simp
    then show ?thesis
      using assms by (auto simp: sorted_append)
  qed
qed

text \<open>
  C4, as the claim states it, fails: a column whose id is absent from the list gets the key
  \<open>-1\<close> of \<open>indexOf\<close> and sorts to the front. On the board with columns \<open>a\<close>, \<open>b\<close>,
  \<open>archive\<close> and the list \<open>[b, a]\<close> the absent column \<open>archive\<close> ends up first, not last.
\<close>

theorem reorderColumns_absent_counterexample:
  "map col_id (columns (reorderColumns demoEnv [''b'', ''a''] demoStore))
     = [''archive'', ''b'', ''a'']
   \<and> map col_id (columns (reorderColumns demoEnv [''b'', ''a''] demoStore))
     \<noteq> [''b'', ''a'', ''archive'']"
  by (simp add: reorderColumns_def demo_defs saveState_def muteNext_def indexOf_def)

text \<open>
  C4, amended. \<open>reorderColumns\<close> sorts the columns stably by the position of their id in
  the given list (columns with the same position keep their relative order), and the
  columns whose id is absent from the list come first, in their relative order, before the
  columns whose id is in the list.
\<close>

theorem reorderColumns_sorted_absent_first:
  "columns (reorderColumns e columnOrder st)
     = filter (\<lambda>c. col_id c \<notin> set columnOrder) (columns st)
       @ sort_key (\<lambda>c. indexOf columnOrder (col_id c))
           (filter (\<lambda>c. col_id c \<in> set columnOrder) (columns st))
   \<and> sorted (map (\<lambda>c. indexOf columnOrder (col_id c)) (columns (reorderColumns e columnOrder st)))
   \<and> filter (\<lambda>c. indexOf columnOrder (col_id c) = k) (columns (reorderColumns e columnOrder st))
     = filter (\<lambda>c. indexOf columnOrder (col_id c) = k) (columns st)"
proof -
  let ?f = "\<lambda>c::card column. indexOf columnOrder (col_id c)"
  have cols: "columns (reorderColumns e columnOrder st) = sort_key ?f (columns st)"
    by (simp add: reorderColumns_def saveState_def muteNext_def)
  have "sort_key ?f (columns st)
      = filter (\<lambda>c. ?f c = - 1) (columns st) @ sort_key ?f (filter (\<lambda>c. ?f c \<noteq> - 1) (columns st))"
    by (rule sort_key_min_first) (rule indexOf_ge)
  then have "sort_key ?f (columns st)
      = filter (\<lambda>c. col_id c \<notin> set columnOrder) (columns st)
        @ sort_key ?f (filter (\<lambda>c. col_id c \<in> set columnOrder) (columns st))"
    by (simp add: indexOf_absent)
  moreover have "sorted (map ?f (sort_key ?f (columns st)))"
    by simp
  moreover have "filter (\<lambda>c. ?f c = k) (sort_key ?f (columns st)) = filter (\<lambda>c. ?f c = k) (columns st)"
    by (rule sort_key_stable)
  ultimately show ?thesis unfolding cols by simp
qed

subsection \<open>Moving a card\<close>

text \<open>
  C5, as the claim states it, fails for a negative \<open>toIndex\<close>: the code appends the card
  at the end of the target column, where clamping into \<open>[0, len(target)]\<close> gives
  position 0. Moving \<open>k3\<close> into the column holding \<open>k1\<close>, \<open>k2\<close> with \<open>toIndex = -1\<close>
  gives \<open>k1\<close>, \<open>k2\<close>, \<open>k3\<close>.
\<close>

theorem moveCard_negative_index_counterexample:
  "let st' = moveCard demoEnv ''k3'' ''b'' ''a'' (- 1) demoStore;
       tgt = cards (columns demoStore ! 0)
   in map card_id (cards (columns st' ! 0)) = [''k1'', ''k2'', ''k3'']
    \<and> map card_id (cards (columns st' ! 0))
      \<noteq> map card_id (insertAt (clampIndex (- 1) (length tgt)) (cards (columns demoStore ! 1) ! 0) tgt)"
  by (simp add: moveCard_def demo_defs findColumn_def removeAt_def nextSeq_def stampMove_def
      placeCard_def saveState_def muteNext_def insertAt_def clampIndex_def)

text \<open>
  C5, amended. When both columns exist and the card is found in the source column, the
  card is removed from the source sequence, stamped, and put into the target sequence: at
  position \<open>toIndex\<close> when \<open>0 \<le> toIndex \<le> len(target)\<close> (the length after the removal),
  and at the end when \<open>toIndex\<close> is negative or greater than that length. No other column
  changes, and the model is total, so the call does not throw.
\<close>

theorem moveCard_places_card:
  assumes "findColumn (columns st) fromColId = Some fi"
      and "findColumn (columns st) toColId = Some ti"
      and "findIndex (\<lambda>c. card_id c = cardId) (cards (columns st ! fi)) = Some k"
  shows "let st' = moveCard e cardId fromColId toColId toIndex st;
             c' = stampMove e (seqCounter st + 1) (cards (columns st ! fi) ! k);
             src = removeAt k (cards (columns st ! fi));
             tgt = (if ti = fi then src else cards (columns st ! ti))
         in cards (columns st' ! ti)
              = (if 0 \<le> toIndex \<and> toIndex \<le> int (length tgt)
                 then insertAt (nat toIndex) c' tgt else tgt @ [c'])
          \<and> (ti \<noteq> fi \<longrightarrow> cards (columns st' ! fi) = src)
          \<and> length (columns st') = length (columns st)
          \<and> (\<forall>j < length (columns st). j \<noteq> fi \<and> j \<noteq> ti \<longrightarrow> columns st' ! j = columns st ! j)"
proof -
  have fi: "fi < length (columns st)" and ti: "ti < length (columns st)"
    using assms(1,2) by (auto simp: findColumn_def dest: findIndex_Some_less)
  show ?thesis
    using assms fi ti
    by (auto simp: moveCard_def Let_def nextSeq_def saveState_def muteNext_def placeCard_def
        nth_list_update)
qed

theorem moveCard_places_card_witness:
  "findColumn (columns demoStore) ''b'' = Some 1
   \<and> findColumn (columns demoStore) ''a'' = Some 0
   \<and> findIndex (\<lambda>c. card_id c = ''k3'') (cards (columns demoStore ! 1)) = Some 0
   \<and> map card_id (cards (columns (moveCard demoEnv ''k3'' ''b'' ''a'' 1 demoStore) ! 0))
       = [''k1'', ''k3'', ''k2'']
   \<and> cards (columns (moveCard demoEnv ''k3'' ''b'' ''a'' 1 demoStore) ! 1) = []"
  using moveCard_places_card [of demoStore "''b''" 1 "''a''" 0 "''k3''" 0 demoEnv 1]
  by (simp add: demo_defs findColumn_def Let_def removeAt_def insertAt_def stampMove_def)

subsection \<open>The done column\<close>

lemma filter_eq_upt: "i < n \<Longrightarrow> filter (\<lambda>j. j = i) [0..<n] = [i]"
proof (induction n)
  case 0
  then show ?case by simp
next
  case (Suc n)
  show ?case
  proof (cases "i = n")
    case True
    then have "filter (\<lambda>j. j = i) [0..<n] = []"
      by (auto simp: filter_empty_conv)
    with True show ?thesis by simp
  next
    case False
    with Suc show ?thesis by simp
  qed
qed

text \<open>
  C6, as the claim states it for every column id, fails: \<open>updateColumn\<close> does nothing
  when the id is unknown or names the archive column. Called with the archive column's id
  and \<open>isDone = true\<close> on a board without a done column, it leaves no column done.
\<close>

theorem updateColumn_archive_counterexample:
  "doneColumns (columns (updateColumn demoEnv ''archive'' ''Finished'' True demoStore)) = []
   \<and> length (doneColumns (columns (updateColumn demoEnv ''archive'' ''Finished'' True demoStore)))
     \<noteq> 1"
  by (simp add: updateColumn_def demo_defs findColumn_def truthy_def doneColumns_def upt_rec)

text \<open>
  C6, amended. After an \<open>updateColumn\<close> call with \<open>isDone = true\<close> whose id names an
  existing column that is not the archive column, exactly one column of the board has
  \<open>isDone = true\<close>: the column the id names. A call whose id names no column, or names
  the archive column, returns the store it was given, whatever title and \<open>isDone\<close> it
  passes. (The column an id names is the first column with that id.)
\<close>

theorem updateColumn_single_done:
  "(findColumn (columns st) colId = Some i \<and> \<not> truthy (isArchive (columns st ! i)) \<longrightarrow>
      doneColumns (columns (updateColumn e colId newTitle True st)) = [i])
   \<and> (findColumn (columns st) colId = None \<longrightarrow> updateColumn e colId newTitle newDone st = st)
   \<and> (findColumn (columns st) colId = Some i \<and> truthy (isArchive (columns st ! i)) \<longrightarrow>
        updateColumn e colId newTitle newDone st = st)"
proof (intro conjI impI)
  assume a: "findColumn (columns st) colId = Some i \<and> \<not> truthy (isArchive (columns st ! i))"
  have i: "i < length (columns st)"
    using a by (auto simp: findColumn_def dest: findIndex_Some_less)
  let ?cols = "columns (updateColumn e colId newTitle True st)"
  have len: "length ?cols = length (columns st)"
    using a by (simp add: updateColumn_def Let_def saveState_def muteNext_def)
  have at: "\<And>j. j < length (columns st) \<Longrightarrow> truthy (isDone (?cols ! j)) \<longleftrightarrow> j = i"
    using a i
    by (auto simp: updateColumn_def Let_def saveState_def muteNext_def truthy_def nth_list_update)
  have "filter (\<lambda>j. truthy (isDone (?cols ! j))) [0..<length (columns st)]
      = filter (\<lambda>j. j = i) [0..<length (columns st)]"
    by (rule filter_cong) (auto simp: at)
  also have "\<dots> = [i]"
    using i by (rule filter_eq_upt)
  finally show "doneColumns ?cols = [i]" by (simp add: doneColumns_def len)
next
  assume "findColumn (columns st) colId = None"
  then show "updateColumn e colId newTitle newDone st = st"
    by (simp add: updateColumn_def)
next
  assume "findColumn (columns st) colId = Some i \<and> truthy (isArchive (columns st ! i))"
  then show "updateColumn e colId newTitle newDone st = st"
    by (simp add: updateColumn_def)
qed

theorem updateColumn_single_done_witness:
  "findColumn (columns demoStore) ''b'' = Some 1
   \<and> \<not> truthy (isArchive (columns demoStore ! 1))
   \<and> doneColumns (columns (updateColumn demoEnv ''b'' ''Finished'' True demoStore)) = [1]
   \<and> findColumn (columns demoStore) ''zz'' = None
   \<and> updateColumn demoEnv ''zz'' ''Finished'' True demoStore = demoStore
   \<and> findColumn (columns demoStore) ''archive'' = Some 2
   \<and> truthy (isArchive (columns demoStore ! 2))
   \<and> updateColumn demoEnv ''archive'' ''Finished'' True demoStore = demoStore"
  using updateColumn_single_done [of demoStore "''b''" 1 demoEnv "''Finished''" True]
    updateColumn_single_done [of demoStore "''zz''" 1 demoEnv "''Finished''" True]
    updateColumn_single_done [of demoStore "''archive''" 2 demoEnv "''Finished''" True]
  by (simp add: demo_defs findColumn_def truthy_def)

subsection \<open>The archive column\<close>

lemma fetchState_error: "fetchState e b = Inl err \<Longrightarrow> localLoad b = Inl err"
  by (auto simp: fetchState_def split: if_splits sum.splits loaded.splits)

lemma findIndex_first:
  assumes "i < length xs" "P (xs ! i)" "\<And>j. j < i \<Longrightarrow> \<not> P (xs ! j)"
  shows "findIndex P xs = Some i"
  using assms
proof (induction xs arbitrary: i)
  case Nil
  then show ?case by simp
next
  case (Cons x xs)
  show ?case
  proof (cases i)
    case 0
    with Cons.prems show ?thesis by simp
  next
    case (Suc k)
    from Cons.prems(3) [of 0] Suc have nx: "\<not> P x" by simp
    have "findIndex P xs = Some k"
    proof (rule Cons.IH)
      show "k < length xs" using Cons.prems(1) Suc by simp
      show "P (xs ! k)" using Cons.prems(2) Suc by simp
      fix j assume "j < k"
      with Cons.prems(3) [of "Suc j"] Suc show "\<not> P (xs ! j)" by simp
    qed
    with nx Suc show ?thesis by simp
  qed
qed




section \<open>Properties of the drag gesture\<close>

text \<open>
  C7, as the claim states it, fails: for a touch press the distance test is guarded by
  \<open>!Dnd.cardDrag.isTouch\<close>, so movement beyond 8 px does not start the drag. A touch
  press at (100, 100) followed by a move to (109, 100), 9 px away, leaves the gesture
  armed and not dragging.
\<close>

theorem touch_move_counterexample:
  "let d1 = startCardPotentialDrag (touchAt 100 100) idleDnd;
       d2 = pointermove (touchAt 109 100) d1
   in isArmed d1 \<and> (109 - 100) * (109 - 100) + (100 - 100) * (100 - 100) > (8 * 8 :: int)
      \<and> \<not> isDragging d2 \<and> isArmed d2"
  by (simp add: startCardPotentialDrag_def touchAt_def idleDnd_def pointermove_def
      onCardPotentialMove_def isArmed_def isDragging_def Let_def touchCancelThreshold_def)

text \<open>
  C7, amended. A touch (non-mouse) press that is accepted arms the gesture and sets a timer
  of 300 ms. The gesture becomes Dragging when that timer fires. A move of the same pointer
  that stays within 10 px of the start on both axes leaves the gesture armed, whatever its
  distance (only the last pointer position is recorded). A move with more than 10 px on
  either axis discards the candidate, clears the timer and removes the handlers: the timer
  is no longer pending, so its callback does not run and no drag begins.
\<close>

theorem touch_drag_needs_long_press:
  assumes "pointerType press \<noteq> Mouse" and "\<not> onInteractive press"
      and "pointerId mv = pointerId press"
  shows "let d1 = startCardPotentialDrag press d;
             tid = nextTimer d;
             dx = clientX mv - clientX press;
             dy = clientY mv - clientY press
         in isArmed d1
          \<and> pendingTimers d1 = (tid, 300, press) # pendingTimers d
          \<and> isDragging (timerFires tid d1)
          \<and> (\<bar>dx\<bar> \<le> 10 \<and> \<bar>dy\<bar> \<le> 10 \<longrightarrow>
               pointermove mv d1 = d1\<lparr>lastPointer := Some (clientX mv, clientY mv)\<rparr>)
          \<and> (\<bar>dx\<bar> > 10 \<or> \<bar>dy\<bar> > 10 \<longrightarrow>
               pointermove mv d1
                 = d\<lparr>cardDrag := None,
                     pendingTimers := filter (\<lambda>t. fst t \<noteq> tid) (pendingTimers d),
                     nextTimer := Suc tid, listening := False,
                     lastPointer := Some (clientX mv, clientY mv)\<rparr>
               \<and> tid \<notin> fst ` set (pendingTimers (pointermove mv d1))
               \<and> timerFires tid (pointermove mv d1) = pointermove mv d1
               \<and> \<not> isDragging (timerFires tid (pointermove mv d1)))"
proof -
  let ?d1 = "startCardPotentialDrag press d"
  let ?tid = "nextTimer d"
  let ?dx = "clientX mv - clientX press"
  let ?dy = "clientY mv - clientY press"
  let ?g = "\<lparr>dragPointerId = pointerId press, startX = clientX press, startY = clientY press,
             started = False, timerId = Some ?tid, isTouch = True\<rparr>"
  have d1: "?d1 = d\<lparr>cardDrag := Some ?g,
                  pendingTimers := (?tid, 300, press) # pendingTimers d,
                  nextTimer := Suc ?tid, listening := True\<rparr>"
    using assms(1,2) by (simp add: startCardPotentialDrag_def Let_def touchLongPressMs_def)
  have armed: "isArmed ?d1" by (simp add: d1 isArmed_def)
  have timers: "pendingTimers ?d1 = (?tid, 300, press) # pendingTimers d" by (simp add: d1)
  have fires: "isDragging (timerFires ?tid ?d1)"
    by (simp add: d1 timerFires_def clearTimeout_def beginCardDrag_def isDragging_def)
  have near: "pointermove mv ?d1 = ?d1\<lparr>lastPointer := Some (clientX mv, clientY mv)\<rparr>"
    if "\<bar>?dx\<bar> \<le> 10 \<and> \<bar>?dy\<bar> \<le> 10"
    using that assms(3)
    by (simp add: d1 pointermove_def onCardPotentialMove_def Let_def touchCancelThreshold_def)
  have far: "pointermove mv ?d1
                 = d\<lparr>cardDrag := None,
                     pendingTimers := filter (\<lambda>t. fst t \<noteq> ?tid) (pendingTimers d),
                     nextTimer := Suc ?tid, listening := False,
                     lastPointer := Some (clientX mv, clientY mv)\<rparr>"
    if "\<bar>?dx\<bar> > 10 \<or> \<bar>?dy\<bar> > 10"
    using that assms(3)
    by (auto simp: d1 pointermove_def onCardPotentialMove_def Let_def touchCancelThreshold_def
        clearTimeout_def)
  have cleared: "?tid \<notin> fst ` set (pendingTimers (pointermove mv ?d1))
               \<and> timerFires ?tid (pointermove mv ?d1) = pointermove mv ?d1
               \<and> \<not> isDragging (timerFires ?tid (pointermove mv ?d1))"
    if f: "\<bar>?dx\<bar> > 10 \<or> \<bar>?dy\<bar> > 10"
  proof -
    have 1: "?tid \<notin> fst ` set (pendingTimers (pointermove mv ?d1))"
      by (auto simp: far [OF f])
    then have "find (\<lambda>t. fst t = ?tid) (pendingTimers (pointermove mv ?d1)) = None"
      by (force simp: find_None_iff)
    then have 2: "timerFires ?tid (pointermove mv ?d1) = pointermove mv ?d1"
      by (simp add: timerFires_def)
    have "\<not> isDragging (pointermove mv ?d1)"
      by (simp add: far [OF f] isDragging_def)
    with 1 2 show ?thesis by simp
  qed
  show ?thesis
    unfolding Let_def using armed timers fires near far cleared by blast
qed

theorem touch_drag_needs_long_press_witness:
  "pointerType (touchAt 100 100) \<noteq> Mouse \<and> \<not> onInteractive (touchAt 100 100)
   \<and> pointerId (touchAt 100 120) = pointerId (touchAt 100 100)
   \<and> isArmed (startCardPotentialDrag (touchAt 100 100) idleDnd)
   \<and> pendingTimers (startCardPotentialDrag (touchAt 100 100) idleDnd) = [(0, 300, touchAt 100 100)]
   \<and> isDragging (timerFires 0 (startCardPotentialDrag (touchAt 100 100) idleDnd))
   \<and> cardDrag (pointermove (touchAt 100 120) (startCardPotentialDrag (touchAt 100 100) idleDnd))
       = None
   \<and> pendingTimers (pointermove (touchAt 100 120) (startCardPotentialDrag (touchAt 100 100) idleDnd))
       = []"
  using touch_drag_needs_long_press [of "touchAt 100 100" "touchAt 100 120" idleDnd]
  by (simp add: touchAt_def idleDnd_def Let_def)

section \<open>Properties of the import merge\<close>

lemma seqGreater_irrefl [simp]: "\<not> seqGreater s s"
  by (cases s) simp_all

lemma strGreater_irrefl [simp]: "\<not> strGreater s s"
  by (induction s) simp_all

lemma in_allCards: "a \<in> set (allCards cols) \<longleftrightarrow> (\<exists>j < length cols. a \<in> set (cards (cols ! j)))"
proof -
  have "a \<in> set (allCards cols) \<longleftrightarrow> (\<exists>c \<in> set cols. a \<in> set (cards c))"
    by (simp add: allCards_def)
  also have "\<dots> \<longleftrightarrow> (\<exists>j < length cols. a \<in> set (cards (cols ! j)))"
    by (metis in_set_conv_nth)
  finally show ?thesis .
qed

lemma allCards_append [simp]: "allCards (xs @ ys) = allCards xs @ allCards ys"
  by (simp add: allCards_def)

lemma allCards_Cons [simp]: "allCards (c # cs) = cards c @ allCards cs"
  by (simp add: allCards_def)

lemma allCards_Nil [simp]: "allCards [] = []"
  by (simp add: allCards_def)

lemma cards_withCards [simp]: "cards (withCards c cs) = cs"
  by (simp add: withCards_def)

lemma allCards_allocCols: "allCards (allocCols n b) = [n ..< n + length (allCards b)]"
proof (induction b arbitrary: n)
  case Nil
  then show ?case by simp
next
  case (Cons c cs)
  have "[n ..< n + length (cards c)] @ [n + length (cards c) ..< n + length (cards c) + length (allCards cs)]
      = [n ..< n + length (cards c) + length (allCards cs)]"
    by (metis le_add1 upt_add_eq_append)
  with Cons show ?case by (simp add: add.assoc)
qed

lemma cardIds_readBoard: "cardIds (readBoard st) = heapIds st"
proof -
  have "allCards (readBoard st) = map (mheap st) (allCards (mcols st))"
    by (simp add: readBoard_def allCards_def map_concat comp_def)
  then show ?thesis by (auto simp: cardIds_def heapIds_def)
qed

lemma findCardIn_Some:
  "findCardIn h i cols x = Some (a, ci) \<Longrightarrow>
     i \<le> ci \<and> ci - i < length cols \<and> a \<in> set (cards (cols ! (ci - i))) \<and> card_id (h a) = x"
proof (induction cols arbitrary: i)
  case Nil
  then show ?case by simp
next
  case (Cons col cols)
  show ?case
  proof (cases "find (\<lambda>a. card_id (h a) = x) (cards col)")
    case None
    with Cons.prems have "findCardIn h (Suc i) cols x = Some (a, ci)" by simp
    from Cons.IH [OF this] have *: "Suc i \<le> ci" "ci - Suc i < length cols"
      "a \<in> set (cards (cols ! (ci - Suc i)))" "card_id (h a) = x"
      by auto
    from *(1) have "ci - i = Suc (ci - Suc i)" by simp
    with * show ?thesis by simp
  next
    case (Some b)
    with Cons.prems have "b = a" "ci = i" by auto
    with Some show ?thesis by (auto simp: find_Some_iff)
  qed
qed

lemma findCardIn_Some0:
  "findCardIn h 0 cols x = Some (a, ci) \<Longrightarrow>
     ci < length cols \<and> a \<in> set (cards (cols ! ci)) \<and> card_id (h a) = x"
  using findCardIn_Some [of h 0 cols x a ci] by simp

lemma length_pushCard [simp]: "length (pushCard t a cols) = length cols"
  by (simp add: pushCard_def)

lemma length_dropCards [simp]: "length (dropCards ci x h cols) = length cols"
  by (simp add: dropCards_def)

lemma cards_pushCard:
  "j < length cols \<Longrightarrow>
     cards (pushCard t a cols ! j) = (if j = t then cards (cols ! j) @ [a] else cards (cols ! j))"
  by (simp add: pushCard_def nth_list_update)

lemma cards_dropCards:
  "j < length cols \<Longrightarrow>
     cards (dropCards ci x h cols ! j)
       = (if j = ci then filter (\<lambda>b. card_id (h b) \<noteq> x) (cards (cols ! j)) else cards (cols ! j))"
  by (simp add: dropCards_def nth_list_update)

lemma card_id_overwriteContent [simp]: "card_id (overwriteContent inc ex) = card_id ex"
  by (simp add: overwriteContent_def)

lemma card_id_contentStep [simp]: "card_id (contentStep inc ex) = card_id ex"
  by (simp add: contentStep_def)

lemma dropCards_heap_cong:
  "(\<And>b. card_id (h' b) = card_id (h b)) \<Longrightarrow> dropCards ci x h' cols = dropCards ci x h cols"
  by (simp add: dropCards_def)

text \<open>The three ways a visit of \<open>mergeCard\<close> can go.\<close>

lemma mergeCard_cases [case_names new stay move]:
  obtains
    (new) "findCardIn (mheap st) 0 (mcols st) (card_id (mheap st a)) = None"
      "mergeCard t a st = st\<lparr>mcols := pushCard t a (mcols st)\<rparr>"
  | (stay) ea ci where
      "findCardIn (mheap st) 0 (mcols st) (card_id (mheap st a)) = Some (ea, ci)"
      "mcols (mergeCard t a st) = mcols st"
      "mheap (mergeCard t a st) = (mheap st)(ea := contentStep (mheap st a) (mheap st ea))"
      "\<not> (col_id (mcols st ! ci) \<noteq> col_id (mcols st ! t)
          \<and> isPositionANewer (((mheap st)(ea := contentStep (mheap st a) (mheap st ea))) a)
               (contentStep (mheap st a) (mheap st ea)))"
  | (move) ea ci where
      "findCardIn (mheap st) 0 (mcols st) (card_id (mheap st a)) = Some (ea, ci)"
      "mcols (mergeCard t a st)
         = pushCard t ea (dropCards ci (card_id (mheap st a)) (mheap st) (mcols st))"
      "mheap (mergeCard t a st) = (mheap st)(ea := contentStep (mheap st a) (mheap st ea))"
      "col_id (mcols st ! ci) \<noteq> col_id (mcols st ! t)"
      "isPositionANewer (((mheap st)(ea := contentStep (mheap st a) (mheap st ea))) a)
         (contentStep (mheap st a) (mheap st ea))"
proof (cases "findCardIn (mheap st) 0 (mcols st) (card_id (mheap st a))")
  case None
  then show ?thesis by (intro new) (simp_all add: mergeCard_def)
next
  case (Some r)
  obtain ea ci where r: "r = (ea, ci)" by (cases r)
  let ?h1 = "(mheap st)(ea := contentStep (mheap st a) (mheap st ea))"
  have h1: "(if isContentANewer (mheap st a) (mheap st ea)
             then (mheap st)(ea := overwriteContent (mheap st a) (mheap st ea))
             else mheap st) = ?h1"
    by (simp add: contentStep_def)
  have idea: "card_id (mheap st ea) = card_id (mheap st a)"
    using findCardIn_Some0 [of "mheap st" "mcols st" "card_id (mheap st a)" ea ci] Some r by simp
  have "dropCards ci (card_id (mheap st a)) ?h1 (mcols st)
      = dropCards ci (card_id (mheap st a)) (mheap st) (mcols st)"
    by (rule dropCards_heap_cong) simp
  then have dc: "dropCards ci (card_id (?h1 ea)) ?h1 (mcols st)
      = dropCards ci (card_id (mheap st a)) (mheap st) (mcols st)"
    by (simp add: idea)
  have eq: "mergeCard t a st
      = (if col_id (mcols st ! ci) \<noteq> col_id (mcols st ! t) \<and> isPositionANewer (?h1 a) (?h1 ea)
         then \<lparr>mcols = pushCard t ea (dropCards ci (card_id (?h1 ea)) ?h1 (mcols st)),
               mheap = ?h1\<rparr>
         else st\<lparr>mheap := ?h1\<rparr>)"
    by (simp only: mergeCard_def Some r option.case prod.case Let_def h1)
  have ea_new: "?h1 ea = contentStep (mheap st a) (mheap st ea)" by simp
  show ?thesis
  proof (cases "col_id (mcols st ! ci) \<noteq> col_id (mcols st ! t) \<and> isPositionANewer (?h1 a) (?h1 ea)")
    case True
    show ?thesis
    proof (rule move [of ea ci])
      show "findCardIn (mheap st) 0 (mcols st) (card_id (mheap st a)) = Some (ea, ci)"
        using Some r by simp
      show "mcols (mergeCard t a st)
         = pushCard t ea (dropCards ci (card_id (mheap st a)) (mheap st) (mcols st))"
        using True by (simp only: eq simp_thms if_True dc mstate.simps)
      show "mheap (mergeCard t a st) = ?h1"
        using True by (simp only: eq simp_thms if_True mstate.simps)
      show "col_id (mcols st ! ci) \<noteq> col_id (mcols st ! t)" using True by simp
      show "isPositionANewer (?h1 a) (contentStep (mheap st a) (mheap st ea))"
        using True by simp
    qed
  next
    case False
    show ?thesis
    proof (rule stay [of ea ci])
      show "findCardIn (mheap st) 0 (mcols st) (card_id (mheap st a)) = Some (ea, ci)"
        using Some r by simp
      have stF: "mergeCard t a st = st\<lparr>mheap := ?h1\<rparr>"
        using False by (simp only: eq simp_thms if_False)
      show "mcols (mergeCard t a st) = mcols st"
        by (simp add: stF)
      show "mheap (mergeCard t a st) = ?h1"
        by (simp add: stF)
      show "\<not> (col_id (mcols st ! ci) \<noteq> col_id (mcols st ! t)
          \<and> isPositionANewer (?h1 a) (contentStep (mheap st a) (mheap st ea)))"
        using False by simp
    qed
  qed
qed

lemma mergeCard_length [simp]: "length (mcols (mergeCard t a st)) = length (mcols st)"
  by (cases t a st rule: mergeCard_cases) simp_all

lemma mergeCard_card_id [simp]: "card_id (mheap (mergeCard t a st) b) = card_id (mheap st b)"
  by (cases t a st rule: mergeCard_cases) simp_all

lemma mergeCard_ids:
  assumes t: "t < length (mcols st)"
  shows "heapIds st \<subseteq> heapIds (mergeCard t a st)"
    and "card_id (mheap st a) \<in> heapIds (mergeCard t a st)"
proof -
  let ?x = "card_id (mheap st a)"
  let ?st' = "mergeCard t a st"
  have ids: "\<And>b. card_id (mheap ?st' b) = card_id (mheap st b)" by simp
  have in_ids: "\<And>b j. j < length (mcols st) \<Longrightarrow> b \<in> set (cards (mcols ?st' ! j))
      \<Longrightarrow> card_id (mheap st b) \<in> heapIds ?st'"
    unfolding heapIds_def in_allCards using ids
    by (metis (mono_tags, lifting) image_iff in_allCards mergeCard_length)
  show sub: "heapIds st \<subseteq> heapIds ?st'"
  proof
    fix y assume "y \<in> heapIds st"
    then obtain b j where b: "j < length (mcols st)" "b \<in> set (cards (mcols st ! j))"
        "y = card_id (mheap st b)"
      by (auto simp: heapIds_def in_allCards)
    show "y \<in> heapIds ?st'"
    proof (cases t a st rule: mergeCard_cases)
      case new
      with b have "b \<in> set (cards (mcols ?st' ! j))"
        by (auto simp: cards_pushCard)
      with b in_ids show ?thesis by simp
    next
      case (stay ea ci)
      with b in_ids show ?thesis by simp
    next
      case (move ea ci)
      from findCardIn_Some0 [OF move(1)] have ea: "card_id (mheap st ea) = ?x" by simp
      show ?thesis
      proof (cases "y = ?x")
        case True
        have "ea \<in> set (cards (mcols ?st' ! t))"
          using t by (simp add: move cards_pushCard)
        with t True ea in_ids [of t ea] show ?thesis by simp
      next
        case False
        with b have "b \<in> set (cards (mcols ?st' ! j))"
          by (auto simp: move cards_pushCard cards_dropCards)
        with b in_ids show ?thesis by simp
      qed
    qed
  qed
  show "?x \<in> heapIds ?st'"
  proof (cases t a st rule: mergeCard_cases)
    case new
    with t have "a \<in> set (cards (mcols ?st' ! t))"
      by (simp add: cards_pushCard)
    with t in_ids show ?thesis by simp
  next
    case (stay ea ci)
    from findCardIn_Some0 [OF stay(1)]
    have "ea \<in> set (allCards (mcols st))" "card_id (mheap st ea) = ?x"
      by (auto simp: in_allCards)
    then have "?x \<in> heapIds st"
      by (auto simp: heapIds_def intro!: image_eqI [where x = ea])
    with sub show ?thesis by auto
  next
    case (move ea ci)
    from findCardIn_Some0 [OF move(1)]
    have "ea \<in> set (allCards (mcols st))" "card_id (mheap st ea) = ?x"
      by (auto simp: in_allCards)
    then have "?x \<in> heapIds st"
      by (auto simp: heapIds_def intro!: image_eqI [where x = ea])
    with sub show ?thesis by auto
  qed
qed

lemma fold_mergeCard_basic:
  "length (mcols (fold (mergeCard t) as st)) = length (mcols st)
   \<and> (\<forall>b. card_id (mheap (fold (mergeCard t) as st) b) = card_id (mheap st b))"
  by (induction as arbitrary: st) simp_all

lemma fold_mergeCard_ids:
  assumes "t < length (mcols st)"
  shows "heapIds st \<subseteq> heapIds (fold (mergeCard t) as st)
       \<and> (\<forall>a \<in> set as. card_id (mheap st a) \<in> heapIds (fold (mergeCard t) as st))"
  using assms
proof (induction as arbitrary: st)
  case Nil
  then show ?case by simp
next
  case (Cons a as)
  let ?st1 = "mergeCard t a st"
  from Cons.prems have t1: "t < length (mcols ?st1)" by simp
  from Cons.IH [OF t1] have IH: "heapIds ?st1 \<subseteq> heapIds (fold (mergeCard t) as ?st1)"
      "\<forall>b \<in> set as. card_id (mheap ?st1 b) \<in> heapIds (fold (mergeCard t) as ?st1)"
    by auto
  from mergeCard_ids [OF Cons.prems, of a] have step: "heapIds st \<subseteq> heapIds ?st1"
      "card_id (mheap st a) \<in> heapIds ?st1"
    by auto
  from IH step show ?case by auto
qed

lemma indexMap_snoc: "indexMap key (cols @ [c]) = (indexMap key cols)(key c \<mapsto> length cols)"
  by (simp add: indexMap_def enumerate_append_eq)

lemma indexMap_Nil [simp]: "indexMap key [] = Map.empty"
  by (simp add: indexMap_def)

lemma indexMap_Some: "indexMap key cols k = Some t \<Longrightarrow> t < length cols \<and> key (cols ! t) = k"
proof (induction cols arbitrary: t rule: rev_induct)
  case Nil
  then show ?case by simp
next
  case (snoc c cols)
  then show ?case
    by (auto simp: indexMap_snoc nth_append split: if_splits)
qed

lemma indexMap_None: "indexMap key cols k = None \<longleftrightarrow> k \<notin> key ` set cols"
  by (induction cols rule: rev_induct) (auto simp: indexMap_snoc)

lemma mapsOf_snoc:
  "mapsOf (cols @ [c])
     = \<lparr>tcols = cols @ [c], byId = (byId (mapsOf cols))(col_id c \<mapsto> length cols),
        byTitle = (byTitle (mapsOf cols))(normTitle (col_title c) \<mapsto> length cols)\<rparr>"
  by (simp add: mapsOf_def indexMap_snoc)

lemma tcols_mapsOf [simp]: "tcols (mapsOf cols) = cols"
  by (simp add: mapsOf_def)

lemma targetOf_Some: "targetOf (mapsOf cols) c = Some t \<Longrightarrow> t < length cols"
  by (auto simp: targetOf_def mapsOf_def split: option.splits dest: indexMap_Some)

lemma targetOf_None:
  "targetOf (mapsOf cols) c = None \<longleftrightarrow>
     col_id c \<notin> col_id ` set cols \<and> normTitle (col_title c) \<notin> (\<lambda>d. normTitle (col_title d)) ` set cols"
proof -
  have a: "byId (mapsOf cols) (col_id c) = None \<longleftrightarrow> col_id c \<notin> col_id ` set cols"
    by (simp add: mapsOf_def indexMap_None)
  have b: "byTitle (mapsOf cols) (normTitle (col_title c)) = None
      \<longleftrightarrow> normTitle (col_title c) \<notin> (\<lambda>d. normTitle (col_title d)) ` set cols"
    by (simp add: mapsOf_def indexMap_None)
  show ?thesis
    unfolding a [symmetric] b [symmetric]
    by (cases "byId (mapsOf cols) (col_id c)") (simp_all add: targetOf_def)
qed

lemma decided_init: "decided cols0 [] ([], mapsOf cols0)"
  by (simp add: decided_def)

lemma targetOf_mono:
  assumes "targetOf (mapsOf cols) c \<noteq> None"
  shows "targetOf (mapsOf (cols @ ext)) c \<noteq> None"
  using assms by (auto simp: targetOf_None)

lemma decideTarget_decided:
  assumes "decided cols0 seen rt"
  shows "decided cols0 (seen @ [x]) (decideTarget x rt)"
proof -
  obtain refs tg where rt: "rt = (refs, tg)" by (cases rt)
  from assms rt have inv: "tg = mapsOf (tcols tg)" "length refs = length seen"
      "take (length cols0) (tcols tg) = cols0" "length cols0 \<le> length (tcols tg)"
      "\<forall>i < length seen.
            refs ! i = Snap (seen ! i) \<and> targetOf tg (seen ! i) \<noteq> None
            \<or> (\<exists>p. refs ! i = Pushed p \<and> length cols0 \<le> p \<and> p < length (tcols tg)
                   \<and> tcols tg ! p = seen ! i)"
    by (auto simp: decided_def)
  show ?thesis
  proof (cases "targetOf tg x")
    case (Some t)
    then have eq: "decideTarget x rt = (refs @ [Snap x], tg)"
      by (auto simp: decideTarget_def rt targetOf_def split: option.splits)
    show ?thesis
      unfolding eq decided_def using inv Some
      by (auto simp: nth_append less_Suc_eq)
  next
    case None
    let ?tg' = "mapsOf (tcols tg @ [x])"
    from None have eq: "decideTarget x rt = (refs @ [Pushed (length (tcols tg))], ?tg')"
      using inv(1) by (auto simp: decideTarget_def rt targetOf_def mapsOf_snoc split: option.splits)
    have old: "\<And>i. i < length seen \<Longrightarrow>
            refs ! i = Snap (seen ! i) \<and> targetOf ?tg' (seen ! i) \<noteq> None
            \<or> (\<exists>p. refs ! i = Pushed p \<and> length cols0 \<le> p \<and> p < Suc (length (tcols tg))
                   \<and> (tcols tg @ [x]) ! p = seen ! i)"
    proof -
      fix i assume i: "i < length seen"
      with inv(5) consider (s) "refs ! i = Snap (seen ! i)" "targetOf tg (seen ! i) \<noteq> None"
        | (p) p where "refs ! i = Pushed p" "length cols0 \<le> p" "p < length (tcols tg)"
            "tcols tg ! p = seen ! i"
        by auto
      then show "refs ! i = Snap (seen ! i) \<and> targetOf ?tg' (seen ! i) \<noteq> None
            \<or> (\<exists>p. refs ! i = Pushed p \<and> length cols0 \<le> p \<and> p < Suc (length (tcols tg))
                   \<and> (tcols tg @ [x]) ! p = seen ! i)"
      proof cases
        case s
        from s(2) inv(1) have "targetOf (mapsOf (tcols tg)) (seen ! i) \<noteq> None" by simp
        then have "targetOf ?tg' (seen ! i) \<noteq> None" by (rule targetOf_mono)
        with s(1) show ?thesis by simp
      next
        case p
        then show ?thesis by (auto simp: nth_append)
      qed
    qed
    show ?thesis
      unfolding eq decided_def using inv old
      by (auto simp: nth_append less_Suc_eq)
  qed
qed

lemma fold_decideTarget_decided:
  assumes "decided cols0 seen rt"
  shows "decided cols0 (seen @ xs) (fold decideTarget xs rt)"
  using assms
proof (induction xs arbitrary: seen rt)
  case Nil
  then show ?case by simp
next
  case (Cons x xs)
  from decideTarget_decided [OF Cons.prems, of x]
  have "decided cols0 (seen @ [x]) (decideTarget x rt)" .
  from Cons.IH [OF this] show ?case by simp
qed

lemma mergeColumn_basic:
  "length (mcols (mergeColumn tg r st)) = length (mcols st)
   \<and> (\<forall>b. card_id (mheap (mergeColumn tg r st) b) = card_id (mheap st b))"
  by (simp add: mergeColumn_def Let_def fold_mergeCard_basic split: option.splits)

lemma mergeColumn_ids:
  assumes "\<And>c t. targetOf tg (c :: addr column) = Some t \<Longrightarrow> t < length (mcols st)"
  shows "heapIds st \<subseteq> heapIds (mergeColumn tg r st)"
    and "r = Snap c \<Longrightarrow> targetOf tg c \<noteq> None \<Longrightarrow> a \<in> set (cards c)
          \<Longrightarrow> card_id (mheap st a) \<in> heapIds (mergeColumn tg r st)"
proof -
  show "heapIds st \<subseteq> heapIds (mergeColumn tg r st)"
  proof (cases "targetOf tg (colOf r (mcols st))")
    case None
    then show ?thesis by (simp add: mergeColumn_def)
  next
    case (Some t)
    with assms have "t < length (mcols st)" by blast
    from fold_mergeCard_ids [OF this] Some show ?thesis
      by (simp add: mergeColumn_def)
  qed
  assume r: "r = Snap c" and tgt: "targetOf tg c \<noteq> None" and a: "a \<in> set (cards c)"
  from tgt obtain t where t: "targetOf tg c = Some t" by auto
  with assms have "t < length (mcols st)" by blast
  from fold_mergeCard_ids [OF this, of "cards c"] a r t
  show "card_id (mheap st a) \<in> heapIds (mergeColumn tg r st)"
    by (simp add: mergeColumn_def colOf_def)
qed

lemma fold_mergeColumn_basic:
  "length (mcols (fold (mergeColumn tg) refs st)) = length (mcols st)
   \<and> (\<forall>b. card_id (mheap (fold (mergeColumn tg) refs st) b) = card_id (mheap st b))"
  by (induction refs arbitrary: st) (simp_all add: mergeColumn_basic)

lemma fold_mergeColumn_ids:
  assumes "\<And>c t. targetOf tg (c :: addr column) = Some t \<Longrightarrow> t < length (mcols st)"
  shows "heapIds st \<subseteq> heapIds (fold (mergeColumn tg) refs st)
       \<and> (\<forall>c a. Snap c \<in> set refs \<and> targetOf tg c \<noteq> None \<and> a \<in> set (cards c)
             \<longrightarrow> card_id (mheap st a) \<in> heapIds (fold (mergeColumn tg) refs st))"
  using assms
proof (induction refs arbitrary: st)
  case Nil
  then show ?case by simp
next
  case (Cons r refs)
  let ?st1 = "mergeColumn tg r st"
  have len: "length (mcols ?st1) = length (mcols st)"
    and ids: "\<And>b. card_id (mheap ?st1 b) = card_id (mheap st b)"
    by (simp_all add: mergeColumn_basic)
  from Cons.prems len have tg1: "\<And>c t. targetOf tg (c :: addr column) = Some t \<Longrightarrow> t < length (mcols ?st1)"
    by simp
  from Cons.IH [OF tg1] have IH: "heapIds ?st1 \<subseteq> heapIds (fold (mergeColumn tg) refs ?st1)"
    "\<And>c a. Snap c \<in> set refs \<Longrightarrow> targetOf tg c \<noteq> None \<Longrightarrow> a \<in> set (cards c)
             \<Longrightarrow> card_id (mheap ?st1 a) \<in> heapIds (fold (mergeColumn tg) refs ?st1)"
    by auto
  have step: "heapIds st \<subseteq> heapIds ?st1"
    by (rule mergeColumn_ids(1)) (rule Cons.prems)
  have here: "\<And>c a. r = Snap c \<Longrightarrow> targetOf tg c \<noteq> None \<Longrightarrow> a \<in> set (cards c)
          \<Longrightarrow> card_id (mheap st a) \<in> heapIds ?st1"
    by (rule mergeColumn_ids(2)) (rule Cons.prems)
  show ?case
  proof (intro conjI allI impI)
    show "heapIds st \<subseteq> heapIds (fold (mergeColumn tg) (r # refs) st)"
      using step IH(1) by auto
    fix c a
    assume h: "Snap c \<in> set (r # refs) \<and> targetOf tg c \<noteq> None \<and> a \<in> set (cards c)"
    show "card_id (mheap st a) \<in> heapIds (fold (mergeColumn tg) (r # refs) st)"
    proof (cases "r = Snap c")
      case True
      with h here IH(1) show ?thesis by auto
    next
      case False
      with h have "Snap c \<in> set refs" by auto
      with h IH(2) [of c a] ids show ?thesis by auto
    qed
  qed
qed

lemma set_allCards_take: "set (allCards (take n cols)) \<subseteq> set (allCards cols)"
  by (auto simp: allCards_def dest: in_set_takeD)

lemma mergeHeap_ids:
  assumes st: "mcols st = cols0"
  shows "heapIds st \<subseteq> heapIds (mergeHeap incoming st)
       \<and> (\<lambda>a. card_id (mheap st a)) ` set (allCards incoming) \<subseteq> heapIds (mergeHeap incoming st)"
proof -
  obtain refs tg where rt: "fold decideTarget incoming ([], mapsOf cols0) = (refs, tg)"
    by (cases "fold decideTarget incoming ([], mapsOf cols0)")
  from fold_decideTarget_decided [OF decided_init, of cols0 incoming] rt
  have dec: "decided cols0 incoming (refs, tg)" by simp
  then have inv: "tg = mapsOf (tcols tg)" "length refs = length incoming"
      "take (length cols0) (tcols tg) = cols0"
      "\<And>i. i < length incoming \<Longrightarrow>
            refs ! i = Snap (incoming ! i) \<and> targetOf tg (incoming ! i) \<noteq> None
            \<or> (\<exists>p. refs ! i = Pushed p \<and> length cols0 \<le> p \<and> p < length (tcols tg)
                   \<and> tcols tg ! p = incoming ! i)"
    by (auto simp: decided_def)
  let ?st1 = "st\<lparr>mcols := tcols tg\<rparr>"
  let ?stf = "fold (mergeColumn tg) refs ?st1"
  have mh: "mergeHeap incoming st = ?stf"
    using rt st by (simp add: mergeHeap_def mapsOf_def)
  have tgt: "\<And>c t. targetOf tg (c :: addr column) = Some t \<Longrightarrow> t < length (mcols ?st1)"
    using inv(1) targetOf_Some [of "tcols tg"] by simp
  from fold_mergeColumn_ids [of tg ?st1 refs, OF tgt]
  have f1: "heapIds ?st1 \<subseteq> heapIds ?stf"
    and f2: "\<And>c a. Snap c \<in> set refs \<Longrightarrow> targetOf tg c \<noteq> None \<Longrightarrow> a \<in> set (cards c)
             \<Longrightarrow> card_id (mheap st a) \<in> heapIds ?stf"
    by auto
  have "set (allCards cols0) \<subseteq> set (allCards (tcols tg))"
    using set_allCards_take [of "length cols0" "tcols tg"] inv(3) by simp
  then have "heapIds st \<subseteq> heapIds ?st1"
    using st by (auto simp: heapIds_def)
  with f1 have p1: "heapIds st \<subseteq> heapIds ?stf" by auto
  have p2: "(\<lambda>a. card_id (mheap st a)) ` set (allCards incoming) \<subseteq> heapIds ?stf"
  proof
    fix y assume "y \<in> (\<lambda>a. card_id (mheap st a)) ` set (allCards incoming)"
    then obtain a i where a: "y = card_id (mheap st a)" "i < length incoming"
        "a \<in> set (cards (incoming ! i))"
      by (auto simp: in_allCards)
    from inv(4) [OF a(2)] show "y \<in> heapIds ?stf"
    proof (elim disjE conjE exE)
      assume "refs ! i = Snap (incoming ! i)" "targetOf tg (incoming ! i) \<noteq> None"
      moreover from this inv(2) a(2) have "Snap (incoming ! i) \<in> set refs"
        by (metis nth_mem)
      ultimately show ?thesis using f2 a by auto
    next
      fix p assume "refs ! i = Pushed p" "length cols0 \<le> p" "p < length (tcols tg)"
        "tcols tg ! p = incoming ! i"
      with a have "a \<in> set (allCards (tcols tg))"
        by (auto simp: in_allCards)
      then have "y \<in> heapIds ?st1"
        using a by (auto simp: heapIds_def)
      with f1 show ?thesis by auto
    qed
  qed
  from p1 p2 show ?thesis by (simp add: mh)
qed

lemma importMerge_ids: "cardIds current \<union> cardIds incoming \<subseteq> cardIds (importMerge current incoming)"
proof -
  let ?cs = "allCards current @ allCards incoming"
  let ?n = "length (allCards current)"
  let ?st = "\<lparr>mcols = allocCols 0 current, mheap = (\<lambda>a. ?cs ! a)\<rparr>"
  have cur: "cardIds current = heapIds ?st"
  proof -
    have "map (\<lambda>a. card_id (?cs ! a)) [0 ..< ?n] = map card_id (allCards current)"
      by (rule nth_equalityI) (simp_all add: nth_append)
    from arg_cong [OF this, of set] show ?thesis
      by (simp add: cardIds_def heapIds_def allCards_allocCols)
  qed
  have inc: "cardIds incoming = (\<lambda>a. card_id (mheap ?st a)) ` set (allCards (allocCols ?n incoming))"
  proof -
    have "map (\<lambda>a. card_id (?cs ! a)) [?n ..< ?n + length (allCards incoming)]
        = map card_id (allCards incoming)"
      by (rule nth_equalityI) (simp_all add: nth_append)
    from arg_cong [OF this, of set] show ?thesis
      by (simp add: cardIds_def allCards_allocCols)
  qed
  from mergeHeap_ids [of ?st "allocCols 0 current" "allocCols ?n incoming"]
  show ?thesis
    unfolding cur inc importMerge_def cardIds_readBoard by simp
qed

subsection \<open>Settled cards\<close>

lemma isContentANewer_irrefl [simp]: "\<not> isContentANewer c c"
  by (simp add: isContentANewer_def)

lemma isPositionANewer_irrefl [simp]: "\<not> isPositionANewer c c"
  by (simp add: isPositionANewer_def)

lemma contentStep_self [simp]: "contentStep c c = c"
  by (simp add: contentStep_def)

lemma overwriteContent_idem: "overwriteContent c (overwriteContent c ex) = overwriteContent c ex"
  by (simp add: overwriteContent_def)

lemma contentStep_idem: "contentStep c (contentStep c ex) = contentStep c ex"
  by (simp add: contentStep_def overwriteContent_idem)

lemma find_via_filter: "find P xs = (case filter P xs of [] \<Rightarrow> None | y # _ \<Rightarrow> Some y)"
  by (induction xs) simp_all

lemma find_filter_cong: "filter P xs = filter Q ys \<Longrightarrow> find P xs = find Q ys"
  by (simp add: find_via_filter)

text \<open>\<open>findCardIn\<close> looks only at the cards with the id it searches.\<close>

lemma findCardIn_cong:
  assumes "length cols = length cols'"
      and "\<And>j. j < length cols \<Longrightarrow>
             filter (\<lambda>b. card_id (h b) = x) (cards (cols ! j))
               = filter (\<lambda>b. card_id (h' b) = x) (cards (cols' ! j))"
  shows "findCardIn h i cols x = findCardIn h' i cols' x"
  using assms
proof (induction cols cols' arbitrary: i rule: list_induct2)
  case Nil
  then show ?case by simp
next
  case (Cons c cols c' cols')
  from Cons.prems [of 0]
  have "find (\<lambda>b. card_id (h b) = x) (cards c) = find (\<lambda>b. card_id (h' b) = x) (cards c')"
    by (intro find_filter_cong) simp
  moreover have "findCardIn h (Suc i) cols x = findCardIn h' (Suc i) cols' x"
  proof (rule Cons.IH)
    fix j assume "j < length cols"
    with Cons.prems [of "Suc j"]
    show "filter (\<lambda>b. card_id (h b) = x) (cards (cols ! j))
               = filter (\<lambda>b. card_id (h' b) = x) (cards (cols' ! j))"
      by simp
  qed
  ultimately show ?case by (simp split: option.splits)
qed

lemma findCardIn_None:
  "findCardIn h i cols x = None \<longleftrightarrow> (\<forall>b \<in> set (allCards cols). card_id (h b) \<noteq> x)"
proof (induction cols arbitrary: i)
  case Nil
  then show ?case by simp
next
  case (Cons c cols)
  show ?case
  proof (cases "find (\<lambda>a. card_id (h a) = x) (cards c)")
    case None
    then have 1: "findCardIn h i (c # cols) x = findCardIn h (Suc i) cols x" by simp
    from None have 2: "\<forall>b \<in> set (cards c). card_id (h b) \<noteq> x"
      by (simp add: find_None_iff)
    show ?thesis unfolding 1 Cons.IH using 2 by auto
  next
    case (Some b)
    then have "b \<in> set (cards c)" "card_id (h b) = x"
      by (auto simp: find_Some_iff)
    with Some show ?thesis by auto
  qed
qed

lemma col_id_pushCard [simp]: "col_id (pushCard t a cols ! j) = col_id (cols ! j)"
  by (cases "t < length cols") (simp_all add: pushCard_def nth_list_update not_less list_update_beyond)

lemma col_id_dropCards [simp]: "col_id (dropCards ci x h cols ! j) = col_id (cols ! j)"
  by (cases "ci < length cols") (simp_all add: dropCards_def nth_list_update not_less list_update_beyond)

lemma col_title_pushCard [simp]: "col_title (pushCard t a cols ! j) = col_title (cols ! j)"
  by (cases "t < length cols") (simp_all add: pushCard_def nth_list_update not_less list_update_beyond)

lemma col_title_dropCards [simp]: "col_title (dropCards ci x h cols ! j) = col_title (cols ! j)"
  by (cases "ci < length cols") (simp_all add: dropCards_def nth_list_update not_less list_update_beyond)

lemma mergeCard_col_id [simp]: "col_id (mcols (mergeCard t a st) ! j) = col_id (mcols st ! j)"
  by (cases t a st rule: mergeCard_cases) simp_all

lemma mergeCard_col_title [simp]:
  "col_title (mcols (mergeCard t a st) ! j) = col_title (mcols st ! j)"
  by (cases t a st rule: mergeCard_cases) simp_all

text \<open>A visit of a card that is settled changes nothing.\<close>

lemma settled_noop:
  assumes "settledFor st t (mheap st a)"
  shows "mergeCard t a st = st"
proof -
  from assms obtain f ci where
    f: "findCardIn (mheap st) 0 (mcols st) (card_id (mheap st a)) = Some (f, ci)"
    and c: "contentStep (mheap st a) (mheap st f) = mheap st f"
    and p: "col_id (mcols st ! ci) = col_id (mcols st ! t)
            \<or> \<not> isPositionANewer (mheap st a) (mheap st f)"
    by (auto simp: settledFor_def)
  have h: "(mheap st)(f := contentStep (mheap st a) (mheap st f)) = mheap st"
    by (simp add: c)
  show ?thesis
  proof (cases t a st rule: mergeCard_cases)
    case new
    with f show ?thesis by simp
  next
    case (stay ea ci')
    with f h have "mcols (mergeCard t a st) = mcols st" "mheap (mergeCard t a st) = mheap st"
      by auto
    then show ?thesis by (cases st, cases "mergeCard t a st") simp
  next
    case (move ea ci')
    with f have "ea = f" "ci' = ci" by auto
    with move(4,5) p h c show ?thesis by auto
  qed
qed

text \<open>A visit of a card with another id leaves a settled card settled.\<close>

lemma cards_pushCard_filter:
  "card_id (h a) \<noteq> x \<Longrightarrow>
     filter (\<lambda>b. card_id (h b) = x) (cards (pushCard t a cols ! j))
       = filter (\<lambda>b. card_id (h b) = x) (cards (cols ! j))"
  by (cases "t < length cols"; cases "j = t") (simp_all add: pushCard_def nth_list_update not_less list_update_beyond)

lemma cards_dropCards_filter:
  "y \<noteq> x \<Longrightarrow>
     filter (\<lambda>b. card_id (h b) = x) (cards (dropCards ci y h cols ! j))
       = filter (\<lambda>b. card_id (h b) = x) (cards (cols ! j))"
  by (cases "ci < length cols"; cases "j = ci")
     (auto simp: dropCards_def nth_list_update not_less list_update_beyond intro: filter_cong)

lemma mergeCard_other_find:
  assumes "card_id (mheap st a) \<noteq> x"
  shows "findCardIn (mheap (mergeCard t a st)) 0 (mcols (mergeCard t a st)) x
       = findCardIn (mheap st) 0 (mcols st) x"
proof (rule findCardIn_cong)
  show "length (mcols (mergeCard t a st)) = length (mcols st)" by simp
  fix j assume "j < length (mcols (mergeCard t a st))"
  have ids: "\<And>b. (card_id (mheap (mergeCard t a st) b) = x) = (card_id (mheap st b) = x)"
    by simp
  show "filter (\<lambda>b. card_id (mheap (mergeCard t a st) b) = x) (cards (mcols (mergeCard t a st) ! j))
      = filter (\<lambda>b. card_id (mheap st b) = x) (cards (mcols st ! j))"
    unfolding ids
  proof (cases t a st rule: mergeCard_cases)
    case new
    with assms show "filter (\<lambda>b. card_id (mheap st b) = x) (cards (mcols (mergeCard t a st) ! j))
      = filter (\<lambda>b. card_id (mheap st b) = x) (cards (mcols st ! j))"
      by (simp add: cards_pushCard_filter)
  next
    case (stay ea ci)
    then show "filter (\<lambda>b. card_id (mheap st b) = x) (cards (mcols (mergeCard t a st) ! j))
      = filter (\<lambda>b. card_id (mheap st b) = x) (cards (mcols st ! j))"
      by simp
  next
    case (move ea ci)
    from findCardIn_Some0 [OF move(1)] have "card_id (mheap st ea) = card_id (mheap st a)" by simp
    with assms move show "filter (\<lambda>b. card_id (mheap st b) = x) (cards (mcols (mergeCard t a st) ! j))
      = filter (\<lambda>b. card_id (mheap st b) = x) (cards (mcols st ! j))"
      by (simp add: cards_pushCard_filter cards_dropCards_filter)
  qed
qed

lemma mergeCard_other_heap:
  assumes "card_id (mheap st a) \<noteq> card_id (mheap st f)"
  shows "mheap (mergeCard t a st) f = mheap st f"
proof (cases t a st rule: mergeCard_cases)
  case new
  then show ?thesis by simp
next
  case (stay ea ci)
  from findCardIn_Some0 [OF stay(1)] assms have "ea \<noteq> f" by auto
  with stay show ?thesis by simp
next
  case (move ea ci)
  from findCardIn_Some0 [OF move(1)] assms have "ea \<noteq> f" by auto
  with move show ?thesis by simp
qed

lemma settled_other:
  assumes "settledFor st t c" and "card_id (mheap st a) \<noteq> card_id c"
  shows "settledFor (mergeCard t' a st) t c"
proof -
  from assms(1) obtain f ci where
    f: "findCardIn (mheap st) 0 (mcols st) (card_id c) = Some (f, ci)"
    and c: "contentStep c (mheap st f) = mheap st f"
    and p: "col_id (mcols st ! ci) = col_id (mcols st ! t) \<or> \<not> isPositionANewer c (mheap st f)"
    by (auto simp: settledFor_def)
  from findCardIn_Some0 [OF f] have idf: "card_id (mheap st f) = card_id c" by simp
  have "findCardIn (mheap (mergeCard t' a st)) 0 (mcols (mergeCard t' a st)) (card_id c) = Some (f, ci)"
    using mergeCard_other_find [OF assms(2)] f by simp
  moreover have "mheap (mergeCard t' a st) f = mheap st f"
    using assms(2) idf by (intro mergeCard_other_heap) simp
  ultimately show ?thesis
    using c p unfolding settledFor_def by auto
qed

lemma allCards_update:
  "i < length cols \<Longrightarrow>
     allCards (cols[i := c]) = allCards (take i cols) @ cards c @ allCards (drop (Suc i) cols)"
  by (simp add: upd_conv_take_nth_drop)

lemma allCards_split:
  "i < length cols \<Longrightarrow>
     allCards cols = allCards (take i cols) @ cards (cols ! i) @ allCards (drop (Suc i) cols)"
  using allCards_update [of i cols "cols ! i"] by simp

lemma allCards_pushCard:
  assumes "t < length cols"
  shows "allCards (pushCard t a cols)
       = allCards (take t cols) @ (cards (cols ! t) @ [a]) @ allCards (drop (Suc t) cols)"
  using assms by (simp add: pushCard_def allCards_update)

lemma allCards_dropCards:
  assumes "ci < length cols"
  shows "allCards (dropCards ci x h cols)
       = allCards (take ci cols) @ filter (\<lambda>b. card_id (h b) \<noteq> x) (cards (cols ! ci))
         @ allCards (drop (Suc ci) cols)"
  using assms by (simp add: dropCards_def allCards_update)

lemma set_allCards_pushCard:
  "t < length cols \<Longrightarrow> set (allCards (pushCard t a cols)) = insert a (set (allCards cols))"
  using allCards_split [of t cols] by (auto simp: allCards_pushCard)

lemma set_allCards_dropCards:
  "set (allCards (dropCards ci x h cols)) \<subseteq> set (allCards cols)"
proof (cases "ci < length cols")
  case True
  then show ?thesis
    using allCards_split [of ci cols] by (auto simp: allCards_dropCards)
next
  case False
  then show ?thesis by (simp add: dropCards_def not_less list_update_beyond)
qed

lemma distinct_pushCard:
  assumes "distinct (allCards cols)" "a \<notin> set (allCards cols)" "t < length cols"
  shows "distinct (allCards (pushCard t a cols))"
  using assms allCards_split [of t cols] by (auto simp: allCards_pushCard)

lemma distinct_dropCards:
  assumes "distinct (allCards cols)"
  shows "distinct (allCards (dropCards ci x h cols))"
proof (cases "ci < length cols")
  case True
  then show ?thesis
    using assms allCards_split [of ci cols] by (auto simp: allCards_dropCards)
next
  case False
  then show ?thesis using assms by (simp add: dropCards_def not_less list_update_beyond)
qed

lemma distinct_one_column:
  assumes "distinct (allCards cols)" "i < length cols" "j < length cols"
      and "b \<in> set (cards (cols ! i))" "b \<in> set (cards (cols ! j))"
  shows "i = j"
proof (rule ccontr)
  assume ne: "i \<noteq> j"
  have *: "\<And>i j. i < j \<Longrightarrow> j < length cols \<Longrightarrow> b \<in> set (cards (cols ! i))
      \<Longrightarrow> b \<in> set (cards (cols ! j)) \<Longrightarrow> False"
  proof -
    fix i j assume ij: "i < j" "j < length cols" "b \<in> set (cards (cols ! i))"
      "b \<in> set (cards (cols ! j))"
    have "drop (Suc i) cols ! (j - Suc i) = cols ! j"
      using ij(1,2) by simp
    moreover have "j - Suc i < length (drop (Suc i) cols)"
      using ij(1,2) by simp
    ultimately have "cols ! j \<in> set (drop (Suc i) cols)"
      by (metis nth_mem)
    with ij(4) have "b \<in> set (allCards (drop (Suc i) cols))"
      by (auto simp: allCards_def)
    with ij(3) assms(1) allCards_split [of i cols] ij(1,2) show False
      by auto
  qed
  from ne consider "i < j" | "j < i" by linarith
  then show False
    using * assms by cases blast+
qed

lemma findCardIn_found:
  assumes "b \<in> set (allCards cols)" "card_id (h b) = x"
  obtains g cg where "findCardIn h 0 cols x = Some (g, cg)" "cg < length cols"
    "g \<in> set (cards (cols ! cg))" "card_id (h g) = x"
proof -
  from assms have "findCardIn h 0 cols x \<noteq> None"
    by (auto simp: findCardIn_None)
  then obtain g cg where "findCardIn h 0 cols x = Some (g, cg)" by auto
  with findCardIn_Some0 [OF this] that show thesis by blast
qed

text \<open>The visit of a card of the snapshot keeps the run well formed.\<close>

lemma mergeCard_wfRun:
  assumes wf: "wfRun nB nS h0 st" and uq: "uniqueIds nB nS h0"
      and a: "nB \<le> a" "a < nB + nS" and t: "t < length (mcols st)"
  shows "wfRun nB nS h0 (mergeCard t a st)"
proof -
  from wf have rng: "set (allCards (mcols st)) \<subseteq> {..< nB + nS}"
    and dist: "distinct (allCards (mcols st))"
    and ids: "\<And>b. card_id (mheap st b) = card_id (h0 b)"
    and snap: "\<And>b. nB \<le> b \<Longrightarrow> mheap st b = h0 b"
    by (auto simp: wfRun_def)
  let ?x = "card_id (mheap st a)"
  show ?thesis
  proof (cases t a st rule: mergeCard_cases)
    case new
    from new(1) have "a \<notin> set (allCards (mcols st))"
      by (auto simp: findCardIn_None)
    with new(2) rng dist ids snap a t show ?thesis
      by (auto simp: wfRun_def set_allCards_pushCard distinct_pushCard)
  next
    case (stay ea ci)
    from findCardIn_Some0 [OF stay(1)] have ea: "ea \<in> set (allCards (mcols st))"
        "card_id (mheap st ea) = ?x"
      by (auto simp: in_allCards)
    have keep: "\<And>b. nB \<le> b \<Longrightarrow> mheap (mergeCard t a st) b = h0 b"
    proof -
      fix b assume b: "nB \<le> b"
      show "mheap (mergeCard t a st) b = h0 b"
      proof (cases "b = ea")
        case True
        with ea rng b a uq ids have "ea = a"
          unfolding uniqueIds_def by (metis lessThan_iff not_less subsetD)
        with True stay(3) snap [OF b] show ?thesis by simp
      next
        case False
        with stay(3) snap [OF b] show ?thesis by simp
      qed
    qed
    from stay(2) rng dist ids keep show ?thesis
      by (auto simp: wfRun_def)
  next
    case (move ea ci)
    from findCardIn_Some0 [OF move(1)] have ea: "ci < length (mcols st)"
        "ea \<in> set (cards (mcols st ! ci))" "card_id (mheap st ea) = ?x"
      by auto
    then have ea_in: "ea \<in> set (allCards (mcols st))"
      by (auto simp: in_allCards)
    have keep: "\<And>b. nB \<le> b \<Longrightarrow> mheap (mergeCard t a st) b = h0 b"
    proof -
      fix b assume b: "nB \<le> b"
      show "mheap (mergeCard t a st) b = h0 b"
      proof (cases "b = ea")
        case True
        with ea ea_in rng b a uq ids have "ea = a"
          unfolding uniqueIds_def by (metis lessThan_iff not_less subsetD)
        with True move(3) snap [OF b] show ?thesis by simp
      next
        case False
        with move(3) snap [OF b] show ?thesis by simp
      qed
    qed
    let ?d = "dropCards ci ?x (mheap st) (mcols st)"
    have sub: "set (allCards ?d) \<subseteq> set (allCards (mcols st))"
      by (rule set_allCards_dropCards)
    have dd: "distinct (allCards ?d)"
      using dist by (rule distinct_dropCards)
    have notin: "ea \<notin> set (allCards ?d)"
    proof
      assume "ea \<in> set (allCards ?d)"
      then obtain j where j: "j < length (mcols st)" "ea \<in> set (cards (?d ! j))"
        by (auto simp: in_allCards)
      show False
      proof (cases "j = ci")
        case True
        with j ea show ?thesis by (simp add: cards_dropCards)
      next
        case False
        with j have "ea \<in> set (cards (mcols st ! j))" by (simp add: cards_dropCards)
        with distinct_one_column [OF dist j(1) ea(1) this ea(2)] False show ?thesis by simp
      qed
    qed
    have "distinct (allCards (pushCard t ea ?d))"
      using dd notin t by (intro distinct_pushCard) simp_all
    moreover have "set (allCards (pushCard t ea ?d)) \<subseteq> {..< nB + nS}"
      using sub rng ea_in t by (auto simp: set_allCards_pushCard)
    ultimately show ?thesis
      using move(2) ids keep by (auto simp: wfRun_def)
  qed
qed

text \<open>The visit of a card of the snapshot settles it.\<close>

lemma mergeCard_settles:
  assumes wf: "wfRun nB nS h0 st" and uq: "uniqueIds nB nS h0"
      and a: "nB \<le> a" "a < nB + nS" and t: "t < length (mcols st)"
  shows "settledFor (mergeCard t a st) t (h0 a)"
proof -
  from wf have rng: "set (allCards (mcols st)) \<subseteq> {..< nB + nS}"
    and dist: "distinct (allCards (mcols st))"
    and ids: "\<And>b. card_id (mheap st b) = card_id (h0 b)"
    and snap: "\<And>b. nB \<le> b \<Longrightarrow> mheap st b = h0 b"
    by (auto simp: wfRun_def)
  let ?c = "h0 a"
  let ?st' = "mergeCard t a st"
  have ca: "mheap st a = ?c" using snap a by simp
  from mergeCard_wfRun [OF assms] have wf': "wfRun nB nS h0 ?st'" .
  then have a': "mheap ?st' a = ?c" using a by (simp add: wfRun_def)
  have self: "\<And>cg. findCardIn (mheap ?st') 0 (mcols ?st') (card_id ?c) = Some (a, cg)
      \<Longrightarrow> settledFor ?st' t ?c"
    unfolding settledFor_def using a' by auto
  show ?thesis
  proof (cases t a st rule: mergeCard_cases)
    case new
    from new(1) have none: "\<And>b. b \<in> set (allCards (mcols st)) \<Longrightarrow> card_id (mheap st b) \<noteq> card_id ?c"
      by (auto simp: findCardIn_None ca)
    have "a \<in> set (allCards (mcols ?st'))" "card_id (mheap ?st' a) = card_id ?c"
      using new(2) t a' by (simp_all add: set_allCards_pushCard)
    then obtain g cg where g: "findCardIn (mheap ?st') 0 (mcols ?st') (card_id ?c) = Some (g, cg)"
        "g \<in> set (cards (mcols ?st' ! cg))" "cg < length (mcols ?st')" "card_id (mheap ?st' g) = card_id ?c"
      by (rule findCardIn_found)
    from g(2,3) have "g \<in> set (allCards (mcols ?st'))" by (auto simp: in_allCards)
    with new(2) t have "g = a \<or> g \<in> set (allCards (mcols st))"
      by (simp add: set_allCards_pushCard)
    with none g(4) have "g = a" by auto
    with g(1) self show ?thesis by simp
  next
    case (stay ea ci)
    have h1a: "((mheap st)(ea := contentStep (mheap st a) (mheap st ea))) a = ?c"
      using ca by (cases "a = ea") simp_all
    have "findCardIn (mheap ?st') 0 (mcols ?st') (card_id ?c) = findCardIn (mheap st) 0 (mcols st) (card_id ?c)"
      by (rule findCardIn_cong) (simp_all add: stay(2))
    with stay(1) ca have f: "findCardIn (mheap ?st') 0 (mcols ?st') (card_id ?c) = Some (ea, ci)"
      by simp
    have "contentStep ?c (mheap ?st' ea) = mheap ?st' ea"
      using stay(3) ca by (simp add: contentStep_idem)
    moreover have "col_id (mcols ?st' ! ci) = col_id (mcols ?st' ! t)
        \<or> \<not> isPositionANewer ?c (mheap ?st' ea)"
      using stay(4) h1a stay(3) ca by auto
    ultimately show ?thesis
      unfolding settledFor_def using f by blast
  next
    case (move ea ci)
    from findCardIn_Some0 [OF move(1)] have ea: "ci < length (mcols st)"
        "ea \<in> set (cards (mcols st ! ci))" "card_id (mheap st ea) = card_id ?c"
      by (auto simp: ca)
    then have ea_in: "ea \<in> set (allCards (mcols st))"
      by (auto simp: in_allCards)
    have ne: "a \<noteq> ea"
    proof
      assume "a = ea"
      with move(5) ca show False by simp
    qed
    have ea_board: "ea < nB"
    proof (rule ccontr)
      assume "\<not> ea < nB"
      with ea(3) ids ea_in rng a uq have "ea = a"
        unfolding uniqueIds_def by (metis ca lessThan_iff not_less subsetD)
      with ne show False by simp
    qed
    let ?d = "dropCards ci (card_id (mheap st a)) (mheap st) (mcols st)"
    have "ea \<in> set (allCards (mcols ?st'))" "card_id (mheap ?st' ea) = card_id ?c"
      using move(2) t ea(3) by (simp_all add: set_allCards_pushCard)
    then obtain g cg where g: "findCardIn (mheap ?st') 0 (mcols ?st') (card_id ?c) = Some (g, cg)"
        "g \<in> set (cards (mcols ?st' ! cg))" "cg < length (mcols ?st')" "card_id (mheap ?st' g) = card_id ?c"
      by (rule findCardIn_found)
    from g(2,3) have "g \<in> set (allCards (mcols ?st'))" by (auto simp: in_allCards)
    with wf' have g_rng: "g < nB + nS" by (auto simp: wfRun_def)
    from g(4) ids have g_id: "card_id (h0 g) = card_id (h0 a)" by simp
    show ?thesis
    proof (cases "g < nB")
      case False
      with g_rng g_id a uq have "g = a"
        unfolding uniqueIds_def by (metis not_less)
      with g(1) self show ?thesis by simp
    next
      case True
      from ea(3) ids ca have "card_id (h0 ea) = card_id (h0 g)" using g_id by simp
      with True ea_board g_rng uq have ge: "g = ea"
        unfolding uniqueIds_def by (metis add.commute trans_less_add2)
      have cg: "cg = t"
      proof (rule ccontr)
        assume "cg \<noteq> t"
        with g(2,3) move(2) have in_d: "ea \<in> set (cards (?d ! cg))" "cg < length (mcols st)"
          by (simp_all add: ge cards_pushCard)
        show False
        proof (cases "cg = ci")
          case True
          with in_d ea show ?thesis by (simp add: cards_dropCards ca)
        next
          case False
          with in_d have "ea \<in> set (cards (mcols st ! cg))" by (simp add: cards_dropCards)
          with distinct_one_column [OF dist in_d(2) ea(1) this ea(2)] False show ?thesis by simp
        qed
      qed
      have "contentStep ?c (mheap ?st' ea) = mheap ?st' ea"
        using move(3) ca by (simp add: contentStep_idem)
      with g(1) ge cg show ?thesis
        unfolding settledFor_def by blast
    qed
  qed
qed

lemma mergeCard_untouched:
  assumes "p \<noteq> t"
      and "\<And>b. b \<in> set (cards (mcols st ! p)) \<Longrightarrow> card_id (mheap st b) \<noteq> card_id (mheap st a)"
  shows "cards (mcols (mergeCard t a st) ! p) = cards (mcols st ! p)"
proof (cases t a st rule: mergeCard_cases)
  case new
  with assms(1) show ?thesis by (simp add: pushCard_def)
next
  case (stay ea ci)
  then show ?thesis by simp
next
  case (move ea ci)
  from findCardIn_Some0 [OF move(1)] assms(2) have "p \<noteq> ci" by auto
  with move(2) assms(1) show ?thesis by (simp add: pushCard_def dropCards_def)
qed

subsection \<open>The content key\<close>

lemma timeVal_specTime: "timeVal t = specTime t"
proof (cases t)
  case None
  then show ?thesis by (simp add: timeVal_def)
next
  case (Some ts)
  obtain r m where ts: "ts = TStamp r m" by (cases ts)
  show ?thesis
    by (cases r; cases m) (simp_all add: timeVal_def Some ts)
qed

lemma contentTime_Max:
  "contentTime c = Max {specTime (contentChangedAt c), specTime (lastChanged c), specTime (createdAt c)}"
  by (simp add: contentTime_def timeVal_specTime max.commute max.left_commute)

lemma seqGreater_less: "seqGreater a b \<longleftrightarrow> b < a"
  by (cases a; cases b) simp_all

lemma strGreater_lexord:
  "strGreater a b \<longleftrightarrow> (b, a) \<in> lexord {(x, y). (of_char x :: nat) < of_char y}"
  by (induction a b rule: strGreater.induct) auto

lemma isContentANewer_specKey:
  "isContentANewer A B = specKeyGreater (specContentKey A) (specContentKey B)"
proof -
  have o: "orEmpty (lastChangedBy c) = (case lastChangedBy c of None \<Rightarrow> [] | Some s \<Rightarrow> s)"
    for c :: card
    by (simp add: orEmpty_def)
  have l: "\<not> (x, x) \<in> lexord {(x, y). (of_char x :: nat) < of_char y}" for x :: string
    by (rule lexord_irreflexive) simp
  show ?thesis
    unfolding isContentANewer_def specKeyGreater_def specContentKey_def Let_def
      contentTime_Max [symmetric] o [symmetric] seqGreater_less strGreater_lexord
    using l by auto
qed



subsection \<open>No card is removed\<close>



subsection \<open>The echo guard\<close>

text \<open>
  C3, as the claim states it, fails in its second half: a snapshot that arrives after the
  window is not merged, it replaces the state. After a save at time \<open>t\<close> on the demo
  board, a snapshot with one empty column delivered at \<open>t + 1000\<close> becomes the board,
  where the merge of that snapshot into the board leaves the board as it was.
\<close>

theorem echo_merge_counterexample:
  "let st1 = saveState demoEnv demoStore;
       snap = [plainColumn ''a'' ''Todo'' []];
       st2 = realtimeHandler (nowMs demoEnv + 1000) (Some snap) st1
   in columns st2 = snap \<and> importMerge (columns st1) snap = demoBoard
      \<and> columns st2 \<noteq> importMerge (columns st1) snap"
  by code_simp

text \<open>
  C3, amended. After a local save at time \<open>t\<close> that arms the echo guard (the remote
  backend is configured), a snapshot delivered through the subscription at \<open>t + 500\<close> is
  discarded and the store stays as it is, and a snapshot delivered at \<open>t + 1000\<close>
  replaces the board: it becomes the state as it is, nothing is merged.
\<close>

theorem echo_window_then_replace:
  assumes "useFirebase e"
  shows "let st1 = saveState e st
         in realtimeHandler (nowMs e + 500) (Some snap) st1 = st1
          \<and> realtimeHandler (nowMs e + 1000) (Some snap) st1 = st1\<lparr>columns := snap\<rparr>"
  using assms
  by (simp add: saveState_def muteNext_def realtimeHandler_def shouldIgnore_def Let_def)

theorem echo_window_then_replace_witness:
  "useFirebase demoEnv
   \<and> realtimeHandler (nowMs demoEnv + 500) (Some []) (saveState demoEnv demoStore)
       = saveState demoEnv demoStore
   \<and> columns (realtimeHandler (nowMs demoEnv + 1000) (Some []) (saveState demoEnv demoStore)) = []"
  using echo_window_then_replace [of demoEnv demoStore "[]"]
  by (simp add: demo_defs Let_def saveState_def muteNext_def)

subsection \<open>Step 2 of a merge\<close>

lemma decided_facts:
  assumes "decided cols0 seen (refs, tg)"
  shows "tg = mapsOf (tcols tg)" "length refs = length seen"
    "take (length cols0) (tcols tg) = cols0" "length cols0 \<le> length (tcols tg)"
    "\<And>i. i < length seen \<Longrightarrow>
        refs ! i = Snap (seen ! i) \<and> targetOf tg (seen ! i) \<noteq> None
        \<or> (\<exists>p. refs ! i = Pushed p \<and> length cols0 \<le> p \<and> p < length (tcols tg)
               \<and> tcols tg ! p = seen ! i)"
  using assms by (auto simp: decided_def)

lemma decideTarget_eq:
  assumes "tg = mapsOf (tcols tg)"
  shows "decideTarget x (refs, tg)
       = (case targetOf tg x of
            Some t \<Rightarrow> (refs @ [Snap x], tg)
          | None \<Rightarrow> (refs @ [Pushed (length (tcols tg))], mapsOf (tcols tg @ [x])))"
proof (cases "targetOf tg x")
  case None
  then show ?thesis
    using assms by (auto simp: decideTarget_def targetOf_def mapsOf_snoc split: option.splits)
next
  case (Some t)
  then show ?thesis
    by (auto simp: decideTarget_def targetOf_def split: option.splits)
qed

lemma decideTarget_pushOrder:
  assumes dec: "decided cols0 seen rt" and po: "pushOrder seen rt"
  shows "pushOrder (seen @ [x]) (decideTarget x rt)"
proof -
  obtain refs tg where rt: "rt = (refs, tg)" by (cases rt)
  note d = decided_facts [OF dec [unfolded rt]]
  from po rt have po': "\<And>i p. i < length seen \<Longrightarrow> refs ! i = Pushed p \<Longrightarrow>
           targetOf (mapsOf (take p (tcols tg))) (seen ! i) = None
           \<and> (\<forall>j < i. (\<forall>q. refs ! j = Pushed q \<longrightarrow> q < p)
                 \<and> (refs ! j = Snap (seen ! j) \<longrightarrow>
                      targetOf (mapsOf (take p (tcols tg))) (seen ! j) \<noteq> None))"
    by (auto simp: pushOrder_def)
  have plt: "\<And>i p. i < length seen \<Longrightarrow> refs ! i = Pushed p \<Longrightarrow> p < length (tcols tg)"
    using d(5) by fastforce
  show ?thesis
  proof (cases "targetOf tg x")
    case (Some t)
    then have eq: "decideTarget x rt = (refs @ [Snap x], tg)"
      using d(1) by (simp add: rt decideTarget_eq)
    show ?thesis
      unfolding eq pushOrder_def using po' d(2)
      by (auto simp: nth_append less_Suc_eq)
  next
    case None
    let ?n = "length (tcols tg)"
    from None have eq: "decideTarget x rt = (refs @ [Pushed ?n], mapsOf (tcols tg @ [x]))"
      using d(1) by (simp add: rt decideTarget_eq)
    have old: "\<And>i p. i < length seen \<Longrightarrow> refs ! i = Pushed p \<Longrightarrow>
           targetOf (mapsOf (take p (tcols tg @ [x]))) (seen ! i) = None
           \<and> (\<forall>j < i. (\<forall>q. refs ! j = Pushed q \<longrightarrow> q < p)
                 \<and> (refs ! j = Snap (seen ! j) \<longrightarrow>
                      targetOf (mapsOf (take p (tcols tg @ [x]))) (seen ! j) \<noteq> None))"
      using po' plt by (simp add: less_imp_le)
    have new: "targetOf (mapsOf (take ?n (tcols tg @ [x]))) x = None
           \<and> (\<forall>j < length seen. (\<forall>q. refs ! j = Pushed q \<longrightarrow> q < ?n)
                 \<and> (refs ! j = Snap (seen ! j) \<longrightarrow>
                      targetOf (mapsOf (take ?n (tcols tg @ [x]))) (seen ! j) \<noteq> None))"
    proof (intro conjI allI impI)
      show "targetOf (mapsOf (take ?n (tcols tg @ [x]))) x = None"
        using None d(1) by simp
    next
      fix j q assume "j < length seen" "refs ! j = Pushed q"
      then show "q < ?n" by (rule plt)
    next
      fix j assume j: "j < length seen" "refs ! j = Snap (seen ! j)"
      with d(5) [OF j(1)] have "targetOf tg (seen ! j) \<noteq> None" by auto
      with d(1) show "targetOf (mapsOf (take ?n (tcols tg @ [x]))) (seen ! j) \<noteq> None"
        by simp
    qed
    show ?thesis
      unfolding eq pushOrder_def using old new d(2)
      by (auto simp: nth_append less_Suc_eq)
  qed
qed

lemma fold_decideTarget_pushOrder:
  assumes "decided cols0 seen rt" "pushOrder seen rt"
  shows "pushOrder (seen @ xs) (fold decideTarget xs rt)"
  using assms
proof (induction xs arbitrary: seen rt)
  case Nil
  then show ?case by simp
next
  case (Cons x xs)
  from decideTarget_decided [OF Cons.prems(1), of x]
    decideTarget_pushOrder [OF Cons.prems, of x]
  have "decided cols0 (seen @ [x]) (decideTarget x rt)"
    "pushOrder (seen @ [x]) (decideTarget x rt)" .
  from Cons.IH [OF this] show ?case by simp
qed

text \<open>Step 2 puts no address onto the board twice.\<close>

lemma decideTarget_addrs:
  assumes "tg = mapsOf (tcols tg)"
      and "set (allCards (tcols tg)) \<subseteq> set (allCards (cols0 @ seen))"
  shows "set (allCards (tcols (snd (decideTarget x (refs, tg))))) \<subseteq> set (allCards (cols0 @ seen @ [x]))"
    and "distinct (allCards (cols0 @ seen @ [x])) \<Longrightarrow> distinct (allCards (tcols tg))
          \<Longrightarrow> distinct (allCards (tcols (snd (decideTarget x (refs, tg)))))"
  using assms by (auto simp: decideTarget_eq split: option.splits)

lemma fold_decideTarget_addrs:
  assumes "decided cols0 seen rt"
      and "set (allCards (tcols (snd rt))) \<subseteq> set (allCards (cols0 @ seen))"
      and "distinct (allCards (cols0 @ seen @ xs))"
      and "distinct (allCards (tcols (snd rt)))"
  shows "set (allCards (tcols (snd (fold decideTarget xs rt)))) \<subseteq> set (allCards (cols0 @ seen @ xs))
       \<and> distinct (allCards (tcols (snd (fold decideTarget xs rt))))"
  using assms
proof (induction xs arbitrary: seen rt)
  case Nil
  then show ?case by simp
next
  case (Cons x xs)
  obtain refs tg where rt: "rt = (refs, tg)" by (cases rt)
  note d = decided_facts [OF Cons.prems(1) [unfolded rt]]
  from Cons.prems(3) have dx: "distinct (allCards (cols0 @ seen @ [x]))"
    by auto
  have 1: "decided cols0 (seen @ [x]) (decideTarget x rt)"
    by (rule decideTarget_decided [OF Cons.prems(1)])
  have 2: "set (allCards (tcols (snd (decideTarget x rt)))) \<subseteq> set (allCards (cols0 @ (seen @ [x])))"
    using decideTarget_addrs(1) [OF d(1), of cols0 seen x refs] Cons.prems(2) rt by simp
  have 3: "distinct (allCards (cols0 @ (seen @ [x]) @ xs))"
    using Cons.prems(3) by simp
  have 4: "distinct (allCards (tcols (snd (decideTarget x rt))))"
    using decideTarget_addrs(2) [OF d(1), of cols0 seen x refs] Cons.prems(2,4) dx rt by simp
  from Cons.IH [OF 1 2 3 4] show ?case by simp
qed

subsection \<open>The visits of one incoming column\<close>

lemma fold_mergeCard_shape:
  "length (mcols (fold (mergeCard t) as st)) = length (mcols st)
   \<and> col_id (mcols (fold (mergeCard t) as st) ! j) = col_id (mcols st ! j)
   \<and> col_title (mcols (fold (mergeCard t) as st) ! j) = col_title (mcols st ! j)"
  by (induction as arbitrary: st) simp_all

lemma fold_mergeCard_wfRun:
  assumes "wfRun nB nS h0 st" "uniqueIds nB nS h0" "set as \<subseteq> {nB ..< nB + nS}"
    "t < length (mcols st)"
  shows "wfRun nB nS h0 (fold (mergeCard t) as st)"
  using assms
proof (induction as arbitrary: st)
  case Nil
  then show ?case by simp
next
  case (Cons a as)
  from Cons.prems have "wfRun nB nS h0 (mergeCard t a st)"
    by (intro mergeCard_wfRun) auto
  with Cons.IH [of "mergeCard t a st"] Cons.prems show ?case by simp
qed

lemma wfRun_ids: "wfRun nB nS h0 st \<Longrightarrow> card_id (mheap st b) = card_id (h0 b)"
  by (simp add: wfRun_def)

lemma fold_mergeCard_settled_other:
  assumes "wfRun nB nS h0 st" "uniqueIds nB nS h0" "set as \<subseteq> {nB ..< nB + nS}"
    "t < length (mcols st)"
    and "settledFor st t' c" and "\<And>a. a \<in> set as \<Longrightarrow> card_id (h0 a) \<noteq> card_id c"
  shows "settledFor (fold (mergeCard t) as st) t' c"
  using assms
proof (induction as arbitrary: st)
  case Nil
  then show ?case by simp
next
  case (Cons a as)
  let ?st1 = "mergeCard t a st"
  from Cons.prems have wf1: "wfRun nB nS h0 ?st1"
    by (intro mergeCard_wfRun) auto
  have "card_id (mheap st a) \<noteq> card_id c"
    using Cons.prems(6) [of a] wfRun_ids [OF Cons.prems(1)] by simp
  with Cons.prems(5) have s1: "settledFor ?st1 t' c"
    by (rule settled_other)
  from Cons.IH [OF wf1 Cons.prems(2) _ _ s1] Cons.prems show ?case by simp
qed

lemma fold_mergeCard_untouched:
  assumes "wfRun nB nS h0 st" "uniqueIds nB nS h0" "set as \<subseteq> {nB ..< nB + nS}"
    "t < length (mcols st)" "p \<noteq> t"
    and "\<And>a b. a \<in> set as \<Longrightarrow> b \<in> set (cards (mcols st ! p)) \<Longrightarrow> card_id (h0 b) \<noteq> card_id (h0 a)"
  shows "cards (mcols (fold (mergeCard t) as st) ! p) = cards (mcols st ! p)"
  using assms
proof (induction as arbitrary: st)
  case Nil
  then show ?case by simp
next
  case (Cons a as)
  let ?st1 = "mergeCard t a st"
  from Cons.prems have wf1: "wfRun nB nS h0 ?st1"
    by (intro mergeCard_wfRun) auto
  have same: "cards (mcols ?st1 ! p) = cards (mcols st ! p)"
  proof (rule mergeCard_untouched [OF Cons.prems(5)])
    fix b assume "b \<in> set (cards (mcols st ! p))"
    with Cons.prems(6) [of a b] wfRun_ids [OF Cons.prems(1)]
    show "card_id (mheap st b) \<noteq> card_id (mheap st a)" by simp
  qed
  have "cards (mcols (fold (mergeCard t) as ?st1) ! p) = cards (mcols ?st1 ! p)"
  proof (rule Cons.IH [OF wf1 Cons.prems(2)])
    show "set as \<subseteq> {nB ..< nB + nS}" using Cons.prems(3) by simp
    show "t < length (mcols ?st1)" using Cons.prems(4) by simp
    show "p \<noteq> t" by (rule Cons.prems(5))
    fix a' b assume "a' \<in> set as" "b \<in> set (cards (mcols ?st1 ! p))"
    with Cons.prems(6) [of a' b] same show "card_id (h0 b) \<noteq> card_id (h0 a')" by simp
  qed
  with same show ?case by simp
qed

lemma fold_mergeCard_settles:
  assumes "wfRun nB nS h0 st" "uniqueIds nB nS h0" "set as \<subseteq> {nB ..< nB + nS}"
    "t < length (mcols st)" "distinct (map (\<lambda>a. card_id (h0 a)) as)" "a \<in> set as"
  shows "settledFor (fold (mergeCard t) as st) t (h0 a)"
  using assms
proof (induction as arbitrary: st)
  case Nil
  then show ?case by simp
next
  case (Cons b as)
  let ?st1 = "mergeCard t b st"
  from Cons.prems have wf1: "wfRun nB nS h0 ?st1"
    by (intro mergeCard_wfRun) auto
  have t1: "t < length (mcols ?st1)" using Cons.prems(4) by simp
  have as: "set as \<subseteq> {nB ..< nB + nS}" using Cons.prems(3) by simp
  show ?case
  proof (cases "a = b")
    case True
    from Cons.prems have "settledFor ?st1 t (h0 b)"
      by (intro mergeCard_settles) auto
    moreover have "\<And>a'. a' \<in> set as \<Longrightarrow> card_id (h0 a') \<noteq> card_id (h0 b)"
      using Cons.prems(5) by (metis (no_types, lifting) distinct.simps(2) image_eqI list.simps(9) set_map)
    ultimately have "settledFor (fold (mergeCard t) as ?st1) t (h0 b)"
      using wf1 Cons.prems(2) as t1 by (intro fold_mergeCard_settled_other)
    with True show ?thesis by simp
  next
    case False
    with Cons.prems(6) have "a \<in> set as" by simp
    moreover have "distinct (map (\<lambda>a. card_id (h0 a)) as)" using Cons.prems(5) by simp
    ultimately have "settledFor (fold (mergeCard t) as ?st1) t (h0 a)"
      using wf1 Cons.prems(2) as t1 by (intro Cons.IH)
    then show ?thesis by simp
  qed
qed

subsection \<open>Cards of different incoming columns\<close>

lemma targetOf_cong:
  "col_id c = col_id c' \<Longrightarrow> col_title c = col_title c' \<Longrightarrow> targetOf tg c = targetOf tg c'"
  by (simp add: targetOf_def split: option.splits)

lemma column_addrs:
  assumes "allCards inc = [nB ..< nB + nS]" "k < length inc"
  shows "set (cards (inc ! k)) \<subseteq> {nB ..< nB + nS}"
proof
  fix a assume "a \<in> set (cards (inc ! k))"
  with assms(2) have "a \<in> set (allCards inc)" by (auto simp: in_allCards)
  with assms(1) show "a \<in> {nB ..< nB + nS}" by simp
qed

lemma ids_differ:
  assumes uq: "uniqueIds nB nS h0" and addrs: "allCards inc = [nB ..< nB + nS]"
      and ik: "i < length inc" "k < length inc" "i \<noteq> k"
      and ab: "a \<in> set (cards (inc ! i))" "b \<in> set (cards (inc ! k))"
  shows "card_id (h0 a) \<noteq> card_id (h0 b)"
proof
  assume eq: "card_id (h0 a) = card_id (h0 b)"
  from ab ik have "a \<in> set (allCards inc)" "b \<in> set (allCards inc)"
    by (auto simp: in_allCards)
  with addrs have rng: "nB \<le> a" "a < nB + nS" "nB \<le> b" "b < nB + nS" by auto
  with eq uq have "a = b"
    unfolding uniqueIds_def by (metis not_less)
  moreover have "distinct (allCards inc)" using addrs by simp
  ultimately have "i = k"
    using distinct_one_column [of inc i k a] ik ab by simp
  with ik show False by simp
qed

lemma column_ids_distinct:
  assumes uq: "uniqueIds nB nS h0" and addrs: "allCards inc = [nB ..< nB + nS]"
      and k: "k < length inc"
  shows "distinct (map (\<lambda>a. card_id (h0 a)) (cards (inc ! k)))"
proof -
  have d: "distinct (cards (inc ! k))"
    using allCards_split [OF k] addrs by (metis distinct_append distinct_upt)
  have rng: "set (cards (inc ! k)) \<subseteq> {nB ..< nB + nS}"
    by (rule column_addrs [OF addrs k])
  have "inj_on (\<lambda>a. card_id (h0 a)) (set (cards (inc ! k)))"
  proof (rule inj_onI)
    fix a b assume "a \<in> set (cards (inc ! k))" "b \<in> set (cards (inc ! k))"
      "card_id (h0 a) = card_id (h0 b)"
    with rng uq show "a = b"
      unfolding uniqueIds_def
      by (metis atLeastLessThan_iff not_less subsetD)
  qed
  with d show ?thesis by (simp add: distinct_map)
qed

subsection \<open>Parsed boards\<close>

lemma col_id_withCards [simp]: "col_id (withCards c cs) = col_id c"
  by (simp add: withCards_def)

lemma col_title_withCards [simp]: "col_title (withCards c cs) = col_title c"
  by (simp add: withCards_def)

lemma map_col_id_allocCols [simp]: "map col_id (allocCols n b) = map col_id b"
  by (induction b arbitrary: n) simp_all

lemma map_col_title_allocCols [simp]: "map col_title (allocCols n b) = map col_title b"
  by (induction b arbitrary: n) simp_all

lemma length_allocCols [simp]: "length (allocCols n b) = length b"
  by (induction b arbitrary: n) simp_all

lemma uniqueIds_alloc:
  assumes "distinct (map card_id bs)" "distinct (map card_id ss)"
  shows "uniqueIds (length bs) (length ss) (\<lambda>a. (bs @ ss) ! a)"
  unfolding uniqueIds_def
proof (intro allI impI)
  fix a b
  assume h: "a < length bs + length ss \<and> b < length bs + length ss
      \<and> card_id ((bs @ ss) ! a) = card_id ((bs @ ss) ! b) \<and> (a < length bs \<longleftrightarrow> b < length bs)"
  show "a = b"
  proof (cases "a < length bs")
    case True
    with h have e: "map card_id bs ! a = map card_id bs ! b" and b: "b < length bs"
      by (simp_all add: nth_append)
    have "(map card_id bs ! a = map card_id bs ! b) = (a = b)"
      using assms(1) True b by (intro nth_eq_iff_index_eq) simp_all
    with e show ?thesis by simp
  next
    case False
    with h have e: "map card_id ss ! (a - length bs) = map card_id ss ! (b - length bs)"
      and r: "a - length bs < length ss" "b - length bs < length ss" "\<not> b < length bs"
      by (auto simp: nth_append)
    have "(map card_id ss ! (a - length bs) = map card_id ss ! (b - length bs))
        = (a - length bs = b - length bs)"
      using assms(2) r by (intro nth_eq_iff_index_eq) simp_all
    with e have "a - length bs = b - length bs" by simp
    with False r(3) show ?thesis by simp
  qed
qed

lemma pushOrder_init: "pushOrder [] ([], tg)"
  by (simp add: pushOrder_def)

subsection \<open>Cards that a visit puts into a pushed column\<close>

lemma firstOfId_noop:
  assumes "firstOfId st e"
  shows "mergeCard t e st = st"
proof -
  from assms obtain ci where
    f: "findCardIn (mheap st) 0 (mcols st) (card_id (mheap st e)) = Some (e, ci)"
    by (auto simp: firstOfId_def)
  show ?thesis
    by (simp add: mergeCard_def f)
qed

lemma firstOfId_other:
  assumes "firstOfId st e" "card_id (mheap st a) \<noteq> card_id (mheap st e)"
  shows "firstOfId (mergeCard t a st) e"
  using assms mergeCard_other_find [of st a "card_id (mheap st e)" t]
  by (simp add: firstOfId_def)

lemma findCardIn_unique:
  assumes d: "distinct (allCards cols)" and c: "c < length cols" and b: "b \<in> set (cards (cols ! c))"
      and u: "\<And>b'. b' \<in> set (allCards cols) \<Longrightarrow> card_id (h b') = card_id (h b) \<Longrightarrow> b' = b"
  shows "findCardIn h 0 cols (card_id (h b)) = Some (b, c)"
proof -
  from b c have "b \<in> set (allCards cols)" by (auto simp: in_allCards)
  then obtain g cg where g: "findCardIn h 0 cols (card_id (h b)) = Some (g, cg)" "cg < length cols"
    "g \<in> set (cards (cols ! cg))" "card_id (h g) = card_id (h b)"
    by (rule findCardIn_found [where h = h]) auto
  from g(2,3) have "g \<in> set (allCards cols)" by (auto simp: in_allCards)
  from u [OF this g(4)] have gb: "g = b" .
  with distinct_one_column [OF d g(2) c _ b] g(3) have "cg = c" by simp
  with g(1) gb show ?thesis by simp
qed

lemma mergeCard_board:
  assumes "t < length (mcols st)"
  shows "set (allCards (mcols (mergeCard t a st))) \<subseteq> insert a (set (allCards (mcols st)))"
proof (cases t a st rule: mergeCard_cases)
  case new
  with assms show ?thesis by (simp add: set_allCards_pushCard)
next
  case (stay ea ci)
  then show ?thesis by auto
next
  case (move ea ci)
  from findCardIn_Some0 [OF move(1)] have "ea \<in> set (allCards (mcols st))"
    by (auto simp: in_allCards)
  with move(2) assms set_allCards_dropCards [of ci "card_id (mheap st a)" "mheap st" "mcols st"]
  show ?thesis by (auto simp: set_allCards_pushCard)
qed

lemma uniqueIds_same:
  assumes "uniqueIds nB nS h0" "a < nB + nS" "b < nB + nS" "card_id (h0 a) = card_id (h0 b)"
    "a < nB \<longleftrightarrow> b < nB"
  shows "a = b"
  using assms unfolding uniqueIds_def by blast

text \<open>On a board that does not hold the incoming card, the card that a visit found is the
  only card with its id.\<close>

lemma only_card_of_id:
  assumes wf: "wfRun nB nS h0 st" and uq: "uniqueIds nB nS h0"
      and a: "nB \<le> a" "a < nB + nS" and off: "a \<notin> set (allCards (mcols st))"
      and ea: "ea \<in> set (allCards (mcols st))" "card_id (h0 ea) = card_id (h0 a)"
      and b: "b \<in> set (allCards (mcols st))" "card_id (h0 b) = card_id (h0 a)"
  shows "b = ea"
proof -
  from wf ea(1) b(1) have r: "ea < nB + nS" "b < nB + nS"
    by (auto simp: wfRun_def)
  have "ea < nB"
  proof (rule ccontr)
    assume "\<not> ea < nB"
    with uniqueIds_same [OF uq r(1) a(2) ea(2)] a(1) have "ea = a" by simp
    with ea(1) off show False by simp
  qed
  moreover have "b < nB"
  proof (rule ccontr)
    assume "\<not> b < nB"
    with uniqueIds_same [OF uq r(2) a(2) b(2)] a(1) have "b = a" by simp
    with b(1) off show False by simp
  qed
  ultimately show ?thesis
    using uniqueIds_same [OF uq r(2) r(1)] ea(2) b(2) by simp
qed

lemma mergeCard_pending:
  assumes wf: "wfRun nB nS h0 st" and uq: "uniqueIds nB nS h0"
      and a: "nB \<le> a" "a < nB + nS" and t: "t < length (mcols st)" and p: "p < length (mcols st)"
      and pc: "pendingCol V st p L"
      and xV: "card_id (mheap st a) \<notin> V"
      and xL: "\<And>b. b \<in> set L \<Longrightarrow> card_id (mheap st b) \<noteq> card_id (mheap st a)"
      and off: "p = t \<Longrightarrow> a \<notin> set (allCards (mcols st))"
  shows "pendingCol (insert (card_id (mheap st a)) V) (mergeCard t a st) p L"
proof -
  let ?st' = "mergeCard t a st"
  let ?x = "card_id (mheap st a)"
  from pc obtain ex where ex: "cards (mcols st ! p) = L @ ex"
    and exq: "\<And>e. e \<in> set ex \<Longrightarrow> firstOfId st e \<and> card_id (mheap st e) \<in> V"
    by (auto simp: pendingCol_def)
  have wf': "wfRun nB nS h0 ?st'"
    by (rule mergeCard_wfRun [OF wf uq a t])
  have ids: "\<And>b. card_id (mheap st b) = card_id (h0 b)"
    using wf by (simp add: wfRun_def)
  have old: "\<And>e. e \<in> set ex \<Longrightarrow> firstOfId ?st' e \<and> card_id (mheap ?st' e) \<in> insert ?x V"
  proof -
    fix e assume e: "e \<in> set ex"
    from exq [OF e] xV have "card_id (mheap st a) \<noteq> card_id (mheap st e)" by auto
    with exq [OF e] firstOfId_other [of st e a t]
    show "firstOfId ?st' e \<and> card_id (mheap ?st' e) \<in> insert ?x V" by simp
  qed
  show ?thesis
  proof (cases "p = t")
    case False
    have "cards (mcols ?st' ! p) = cards (mcols st ! p)"
    proof (rule mergeCard_untouched [OF False])
      fix b assume "b \<in> set (cards (mcols st ! p))"
      with ex have "b \<in> set L \<or> b \<in> set ex" by auto
      then show "card_id (mheap st b) \<noteq> card_id (mheap st a)"
        using xL [of b] exq [of b] xV by auto
    qed
    with ex old show ?thesis
      unfolding pendingCol_def by auto
  next
    case True
    note off' = off [OF True]
    show ?thesis
    proof (cases t a st rule: mergeCard_cases)
      case new
      from new(1) have none: "\<And>b. b \<in> set (allCards (mcols st)) \<Longrightarrow> card_id (mheap st b) \<noteq> ?x"
        by (simp add: findCardIn_None)
      have h: "mheap ?st' = mheap st" and c: "mcols ?st' = pushCard t a (mcols st)"
        using new(2) by simp_all
      have cs: "cards (mcols ?st' ! p) = L @ ex @ [a]"
        using ex t True by (simp add: c cards_pushCard)
      have "findCardIn (mheap ?st') 0 (mcols ?st') (card_id (mheap ?st' a)) = Some (a, t)"
      proof (rule findCardIn_unique)
        show "distinct (allCards (mcols ?st'))" using wf' by (simp add: wfRun_def)
        show "t < length (mcols ?st')" using t by simp
        show "a \<in> set (cards (mcols ?st' ! t))" using cs True by simp
        fix b' assume "b' \<in> set (allCards (mcols ?st'))"
          "card_id (mheap ?st' b') = card_id (mheap ?st' a)"
        with none [of b'] t show "b' = a"
          by (auto simp: c set_allCards_pushCard)
      qed
      then have "firstOfId ?st' a" by (auto simp: firstOfId_def)
      with cs old show ?thesis
        unfolding pendingCol_def by auto
    next
      case (stay ea ci)
      with ex old show ?thesis
        unfolding pendingCol_def by auto
    next
      case (move ea ci)
      from findCardIn_Some0 [OF move(1)] have ci: "ci < length (mcols st)"
        and eac: "ea \<in> set (cards (mcols st ! ci))" and eax: "card_id (mheap st ea) = ?x"
        by simp_all
      from move(4) have cit: "ci \<noteq> t" by auto
      have c: "mcols ?st' = pushCard t ea (dropCards ci ?x (mheap st) (mcols st))"
        by (rule move(2))
      have cs: "cards (mcols ?st' ! p) = L @ ex @ [ea]"
        using ex t True cit ci by (simp add: c cards_pushCard cards_dropCards)
      from eac ci have eab: "ea \<in> set (allCards (mcols st))" by (auto simp: in_allCards)
      have "findCardIn (mheap ?st') 0 (mcols ?st') (card_id (mheap ?st' ea)) = Some (ea, t)"
      proof (rule findCardIn_unique)
        show "distinct (allCards (mcols ?st'))" using wf' by (simp add: wfRun_def)
        show "t < length (mcols ?st')" using t by simp
        show "ea \<in> set (cards (mcols ?st' ! t))" using cs True by simp
        fix b' assume b': "b' \<in> set (allCards (mcols ?st'))"
          "card_id (mheap ?st' b') = card_id (mheap ?st' ea)"
        from b'(1) mergeCard_board [OF t, of a] have "b' = a \<or> b' \<in> set (allCards (mcols st))"
          by auto
        moreover have "a \<notin> set (allCards (mcols ?st'))"
        proof
          assume "a \<in> set (allCards (mcols ?st'))"
          with t have "a = ea \<or> a \<in> set (allCards (dropCards ci ?x (mheap st) (mcols st)))"
            by (auto simp: c set_allCards_pushCard)
          with set_allCards_dropCards [of ci ?x "mheap st" "mcols st"] eab off' show False
            by auto
        qed
        ultimately have bb: "b' \<in> set (allCards (mcols st))" using b'(1) by auto
        from b'(2) have "card_id (h0 b') = card_id (h0 a)"
          using eax ids by simp
        moreover from eax ids have "card_id (h0 ea) = card_id (h0 a)" by simp
        ultimately show "b' = ea"
          using only_card_of_id [OF wf uq a off' eab _ bb] by simp
      qed
      then have "firstOfId ?st' ea \<and> card_id (mheap ?st' ea) \<in> insert ?x V"
        using eax by (auto simp: firstOfId_def)
      with cs old show ?thesis
        unfolding pendingCol_def by auto
    qed
  qed
qed

lemma fold_mergeCard_board:
  assumes "t < length (mcols st)"
  shows "set (allCards (mcols (fold (mergeCard t) as st))) \<subseteq> set as \<union> set (allCards (mcols st))"
  using assms
proof (induction as arbitrary: st)
  case Nil
  then show ?case by simp
next
  case (Cons a as)
  from Cons.IH [of "mergeCard t a st"] Cons.prems mergeCard_board [OF Cons.prems, of a]
  show ?case by auto
qed

lemma fold_firstOfId:
  assumes "firstOfId st e" "\<And>a. a \<in> set as \<Longrightarrow> card_id (mheap st a) \<noteq> card_id (mheap st e)"
  shows "firstOfId (fold (mergeCard t) as st) e"
  using assms
proof (induction as arbitrary: st)
  case Nil
  then show ?case by simp
next
  case (Cons a as)
  from Cons.prems have "firstOfId (mergeCard t a st) e"
    by (intro firstOfId_other) auto
  with Cons.IH [of "mergeCard t a st"] Cons.prems show ?case by simp
qed

lemma fold_firstOfId_noop:
  assumes "\<And>e. e \<in> set ex \<Longrightarrow> firstOfId st e"
  shows "fold (mergeCard t) ex st = st"
  using assms by (induction ex) (simp_all add: firstOfId_noop)

lemma fold_mergeCard_pending:
  assumes wf: "wfRun nB nS h0 st" and uq: "uniqueIds nB nS h0"
      and as: "set as \<subseteq> {nB ..< nB + nS}"
      and t: "t < length (mcols st)" and p: "p < length (mcols st)"
      and pc: "pendingCol V st p L"
      and das: "distinct (map (\<lambda>a. card_id (h0 a)) as)"
      and xV: "\<And>a. a \<in> set as \<Longrightarrow> card_id (h0 a) \<notin> V"
      and xL: "\<And>a b. a \<in> set as \<Longrightarrow> b \<in> set L \<Longrightarrow> card_id (h0 b) \<noteq> card_id (h0 a)"
      and off: "p = t \<Longrightarrow> set as \<inter> set (allCards (mcols st)) = {}"
  shows "pendingCol (V \<union> (\<lambda>a. card_id (h0 a)) ` set as) (fold (mergeCard t) as st) p L"
  using wf as t p pc das xV xL off
proof (induction as arbitrary: st V)
  case Nil
  then show ?case by simp
next
  case (Cons a as)
  let ?st1 = "mergeCard t a st"
  let ?x = "card_id (h0 a)"
  note wf = Cons.prems(1)
  have ids: "\<And>b. card_id (mheap st b) = card_id (h0 b)"
    using wf by (simp add: wfRun_def)
  from Cons.prems(2) have a: "nB \<le> a" "a < nB + nS" by simp_all
  have wf1: "wfRun nB nS h0 ?st1"
    by (rule mergeCard_wfRun [OF wf uq a Cons.prems(3)])
  have pc1: "pendingCol (insert ?x V) ?st1 p L"
  proof -
    have "pendingCol (insert (card_id (mheap st a)) V) ?st1 p L"
    proof (rule mergeCard_pending [OF wf uq a Cons.prems(3,4,5)])
      show "card_id (mheap st a) \<notin> V" using Cons.prems(7) [of a] ids by simp
      show "\<And>b. b \<in> set L \<Longrightarrow> card_id (mheap st b) \<noteq> card_id (mheap st a)"
        using Cons.prems(8) [of a] ids by simp
      show "p = t \<Longrightarrow> a \<notin> set (allCards (mcols st))"
        using Cons.prems(9) by auto
    qed
    then show ?thesis by (simp add: ids)
  qed
  have na: "a \<notin> set as"
    using Cons.prems(6) by auto
  have "pendingCol (insert ?x V \<union> (\<lambda>a. card_id (h0 a)) ` set as) (fold (mergeCard t) as ?st1) p L"
  proof (rule Cons.IH [OF wf1 _ _ _ pc1])
    show "set as \<subseteq> {nB ..< nB + nS}" using Cons.prems(2) by simp
    show "t < length (mcols ?st1)" using Cons.prems(3) by simp
    show "p < length (mcols ?st1)" using Cons.prems(4) by simp
    show "distinct (map (\<lambda>a. card_id (h0 a)) as)" using Cons.prems(6) by simp
    show "card_id (h0 b) \<notin> insert ?x V" if b: "b \<in> set as" for b
    proof -
      from Cons.prems(6) have "?x \<notin> (\<lambda>a. card_id (h0 a)) ` set as" by simp
      with b have "card_id (h0 b) \<noteq> ?x" by (metis imageI)
      with Cons.prems(7) [of b] b show ?thesis by simp
    qed
    show "\<And>a b. a \<in> set as \<Longrightarrow> b \<in> set L \<Longrightarrow> card_id (h0 b) \<noteq> card_id (h0 a)"
      using Cons.prems(8) by simp
    show "p = t \<Longrightarrow> set as \<inter> set (allCards (mcols ?st1)) = {}"
      using Cons.prems(9) mergeCard_board [OF Cons.prems(3), of a] na by auto
  qed
  then show ?case by simp
qed

subsection \<open>Step 3 as a whole\<close>

lemma visitedIds_Suc:
  "k < length inc \<Longrightarrow>
     visitedIds h0 inc (Suc k) = visitedIds h0 inc k \<union> (\<lambda>a. card_id (h0 a)) ` set (cards (inc ! k))"
  by (auto simp: visitedIds_def take_Suc_conv_app_nth)

lemma visitedIds_0 [simp]: "visitedIds h0 inc 0 = {}"
  by (simp add: visitedIds_def)

text \<open>Every column behind the columns of the board was pushed for an incoming column.\<close>

lemma decideTarget_onto:
  assumes "\<And>p. length cols0 \<le> p \<Longrightarrow> p < length (tcols (snd rt)) \<Longrightarrow>
             \<exists>i < length (fst rt). fst rt ! i = Pushed p"
      and "length cols0 \<le> p" "p < length (tcols (snd (decideTarget x rt)))"
  shows "\<exists>i < length (fst (decideTarget x rt)). fst (decideTarget x rt) ! i = Pushed p"
proof -
  obtain refs tg where rt: "rt = (refs, tg)" by (cases rt)
  let ?pushed = "(refs @ [Pushed (length (tcols tg))],
         \<lparr>tcols = tcols tg @ [x], byId = (byId tg)(col_id x \<mapsto> length (tcols tg)),
          byTitle = (byTitle tg)(normTitle (col_title x) \<mapsto> length (tcols tg))\<rparr>)"
  have "decideTarget x rt = (refs @ [Snap x], tg) \<or> decideTarget x rt = ?pushed"
    by (simp add: rt decideTarget_def split: option.splits)
  then show ?thesis
  proof
    assume snap: "decideTarget x rt = (refs @ [Snap x], tg)"
    with assms(3) have "p < length (tcols tg)" by simp
    from assms(1) [OF assms(2)] this rt obtain i where "i < length refs" "refs ! i = Pushed p"
      by auto
    with snap show ?thesis
      by (auto simp: nth_append intro!: exI [of _ i])
  next
    assume push: "decideTarget x rt = ?pushed"
    show ?thesis
    proof (cases "p = length (tcols tg)")
      case True
      with push show ?thesis
        by (auto intro!: exI [of _ "length refs"])
    next
      case False
      with push assms(3) have "p < length (tcols tg)" by simp
      from assms(1) [OF assms(2)] this rt obtain i where "i < length refs" "refs ! i = Pushed p"
        by auto
      with push show ?thesis
        by (auto simp: nth_append intro!: exI [of _ i])
    qed
  qed
qed

lemma fold_decideTarget_onto:
  assumes "\<And>p. length cols0 \<le> p \<Longrightarrow> p < length (tcols (snd rt)) \<Longrightarrow>
             \<exists>i < length (fst rt). fst rt ! i = Pushed p"
      and "length cols0 \<le> p" "p < length (tcols (snd (fold decideTarget xs rt)))"
  shows "\<exists>i < length (fst (fold decideTarget xs rt)). fst (fold decideTarget xs rt) ! i = Pushed p"
  using assms
proof (induction xs arbitrary: rt p)
  case Nil
  then show ?case by simp
next
  case (Cons x xs)
  have "\<exists>i < length (fst (fold decideTarget xs (decideTarget x rt))).
          fst (fold decideTarget xs (decideTarget x rt)) ! i = Pushed p"
  proof (rule Cons.IH)
    show "\<And>p. length cols0 \<le> p \<Longrightarrow> p < length (tcols (snd (decideTarget x rt))) \<Longrightarrow>
             \<exists>i < length (fst (decideTarget x rt)). fst (decideTarget x rt) ! i = Pushed p"
      by (rule decideTarget_onto [OF Cons.prems(1)])
    show "length cols0 \<le> p" by (rule Cons.prems(2))
    show "p < length (tcols (snd (fold decideTarget xs (decideTarget x rt))))"
      using Cons.prems(3) by simp
  qed
  then show ?case by simp
qed

text \<open>The target of a pushed column is not a column that step 2 pushed later.\<close>

lemma pushed_target_not_later:
  assumes dec: "decided cols0 inc (refs, tg)" and po: "pushOrder inc (refs, tg)"
      and ji: "j < i" "i < length inc"
      and p: "refs ! i = Pushed p" and q: "refs ! j = Pushed q"
      and t: "targetOf tg (inc ! j) = Some t"
  shows "t \<noteq> p"
proof
  assume tp: "t = p"
  note d = decided_facts [OF dec]
  from d(5) [OF ji(2)] p have pi: "p < length (tcols tg)" "tcols tg ! p = inc ! i"
    by auto
  from ji have jl: "j < length inc" by simp
  from d(5) [OF jl] q have qj: "q < length (tcols tg)" "tcols tg ! q = inc ! j"
    by auto
  from po p ji have none: "targetOf (mapsOf (take p (tcols tg))) (inc ! i) = None"
    and before: "\<And>q. refs ! j = Pushed q \<Longrightarrow> q < p"
    by (auto simp: pushOrder_def)
  from before [OF q] have qp: "q < p" .
  with qj pi(1) have mem: "inc ! j \<in> set (take p (tcols tg))"
    by (metis in_set_conv_nth length_take min_less_iff_conj nth_take)
  from none have "col_id (inc ! i) \<notin> col_id ` set (take p (tcols tg))"
    "normTitle (col_title (inc ! i)) \<notin> (\<lambda>d. normTitle (col_title d)) ` set (take p (tcols tg))"
    by (simp_all add: targetOf_None)
  with mem have ne: "col_id (inc ! i) \<noteq> col_id (inc ! j)"
    "normTitle (col_title (inc ! i)) \<noteq> normTitle (col_title (inc ! j))"
    by auto
  show False
  proof (cases "byId tg (col_id (inc ! j))")
    case (Some t')
    with t have "t' = t" by (simp add: targetOf_def)
    with Some tp d(1) have "indexMap col_id (tcols tg) (col_id (inc ! j)) = Some p"
      by (metis mapsOf_def targets.select_convs(2))
    from indexMap_Some [OF this] pi ne show False by simp
  next
    case None
    with t tp have bt: "byTitle tg (normTitle (col_title (inc ! j))) = Some p"
      by (simp add: targetOf_def)
    with d(1) have "indexMap (\<lambda>c. normTitle (col_title c)) (tcols tg) (normTitle (col_title (inc ! j))) = Some p"
      by (metis mapsOf_def targets.select_convs(3))
    from indexMap_Some [OF this] pi ne show False by simp
  qed
qed

lemma columns_disjoint:
  assumes addrs: "allCards inc = [nB ..< nB + nS]" and ik: "i < length inc" "k < length inc" "i \<noteq> k"
  shows "set (cards (inc ! i)) \<inter> set (cards (inc ! k)) = {}"
proof -
  have "distinct (allCards inc)" using addrs by simp
  with distinct_one_column [of inc i k] ik show ?thesis by auto
qed

lemma outerInv_step:
  assumes dec: "decided cols0 inc (refs, tg)" and po: "pushOrder inc (refs, tg)"
      and uq: "uniqueIds nB nS h0" and addrs: "allCards inc = [nB ..< nB + nS]"
      and k: "k < length inc"
      and inv: "outerInv nB nS h0 inc refs tg k st"
  shows "outerInv nB nS h0 inc refs tg (Suc k) (mergeColumn tg (refs ! k) st)"
proof -
  note d = decided_facts [OF dec]
  let ?V = "visitedIds h0 inc k"
  from inv have wf: "wfRun nB nS h0 st"
    and len: "length (mcols st) = length (tcols tg)"
    and shape: "\<And>j. col_id (mcols st ! j) = col_id (tcols tg ! j)"
      "\<And>j. col_title (mcols st ! j) = col_title (tcols tg ! j)"
    and settled: "\<And>i t a. i < k \<Longrightarrow> targetOf tg (inc ! i) = Some t
        \<Longrightarrow> a \<in> set (cards (inc ! i)) \<Longrightarrow> settledFor st t (h0 a)"
    and pending: "\<And>i p. k \<le> i \<Longrightarrow> i < length inc \<Longrightarrow> refs ! i = Pushed p
        \<Longrightarrow> pendingCol ?V st p (cards (inc ! i))"
    and offboard: "\<And>i. k \<le> i \<Longrightarrow> i < length inc \<Longrightarrow> refs ! i = Snap (inc ! i)
        \<Longrightarrow> set (cards (inc ! i)) \<inter> set (allCards (mcols st)) = {}"
    by (auto simp: outerInv_def)
  have ids: "\<And>b. card_id (mheap st b) = card_id (h0 b)"
    using wf by (simp add: wfRun_def)
  let ?ic = "inc ! k"
  let ?as = "cards ?ic"
  have "targetOf tg ?ic \<noteq> None"
    using d(5) [OF k]
  proof (elim disjE conjE exE)
    fix p assume p: "refs ! k = Pushed p" "p < length (tcols tg)" "tcols tg ! p = ?ic"
    then have "?ic \<in> set (tcols tg)" by (metis nth_mem)
    then have "targetOf (mapsOf (tcols tg)) ?ic \<noteq> None"
      by (auto simp: targetOf_None)
    with d(1) show "targetOf tg ?ic \<noteq> None" by simp
  qed
  then obtain t where t: "targetOf tg ?ic = Some t" by auto
  with d(1) targetOf_Some [of "tcols tg" ?ic t] len have tl: "t < length (mcols st)" by simp
  let ?st' = "fold (mergeCard t) ?as st"
  have as: "set ?as \<subseteq> {nB ..< nB + nS}"
    by (rule column_addrs [OF addrs k])
  have das: "distinct (map (\<lambda>a. card_id (h0 a)) ?as)"
    by (rule column_ids_distinct [OF uq addrs k])
  have fresh: "card_id (h0 a) \<notin> ?V" if a: "a \<in> set ?as" for a
  proof
    assume "card_id (h0 a) \<in> ?V"
    then obtain b where b: "b \<in> set (allCards (take k inc))" "card_id (h0 b) = card_id (h0 a)"
      by (auto simp: visitedIds_def)
    from b(1) k obtain j where j: "j < k" "b \<in> set (cards (inc ! j))"
      by (auto simp: in_allCards)
    from ids_differ [OF uq addrs _ k _ j(2) a] j(1) k b(2) show False by simp
  qed
  have mc: "mergeColumn tg (refs ! k) st = ?st'"
    and offp: "\<And>i p. Suc k \<le> i \<Longrightarrow> i < length inc \<Longrightarrow> refs ! i = Pushed p \<Longrightarrow> p = t
        \<Longrightarrow> set ?as \<inter> set (allCards (mcols st)) = {}"
  proof -
    from d(5) [OF k]
    have "mergeColumn tg (refs ! k) st = ?st'
      \<and> (\<forall>i p. Suc k \<le> i \<longrightarrow> i < length inc \<longrightarrow> refs ! i = Pushed p \<longrightarrow> p = t
            \<longrightarrow> set ?as \<inter> set (allCards (mcols st)) = {})"
    proof (elim disjE conjE exE)
      assume s: "refs ! k = Snap ?ic"
      from offboard [OF _ k s] have "set ?as \<inter> set (allCards (mcols st)) = {}" by simp
      moreover from s t have "mergeColumn tg (refs ! k) st = ?st'"
        by (simp add: mergeColumn_def colOf_def)
      ultimately show ?thesis by simp
    next
      fix p assume p: "refs ! k = Pushed p" "p < length (tcols tg)" "tcols tg ! p = ?ic"
      from pending [OF _ k p(1)] obtain ex where ex: "cards (mcols st ! p) = ?as @ ex"
        and exq: "\<And>e. e \<in> set ex \<Longrightarrow> firstOfId st e \<and> card_id (mheap st e) \<in> ?V"
        by (auto simp: pendingCol_def)
      have "targetOf tg (mcols st ! p) = targetOf tg ?ic"
        using shape [of p] p(3) by (intro targetOf_cong) simp_all
      with t p(1) ex have "mergeColumn tg (refs ! k) st = fold (mergeCard t) ex ?st'"
        by (simp add: mergeColumn_def colOf_def)
      also have "\<dots> = ?st'"
      proof (rule fold_firstOfId_noop)
        fix e assume e: "e \<in> set ex"
        show "firstOfId ?st' e"
        proof (rule fold_firstOfId)
          show "firstOfId st e" using exq [OF e] by simp
          fix a assume "a \<in> set ?as"
          from fresh [OF this] exq [OF e] ids
          show "card_id (mheap st a) \<noteq> card_id (mheap st e)" by auto
        qed
      qed
      finally have 1: "mergeColumn tg (refs ! k) st = ?st'" .
      have "p' \<noteq> t" if "Suc k \<le> i" "i < length inc" "refs ! i = Pushed p'" for i p'
        using pushed_target_not_later [OF dec po _ that(2,3) p(1) t] that(1) by simp
      with 1 show ?thesis by blast
    qed
    then show "mergeColumn tg (refs ! k) st = ?st'"
      and "\<And>i p. Suc k \<le> i \<Longrightarrow> i < length inc \<Longrightarrow> refs ! i = Pushed p \<Longrightarrow> p = t
        \<Longrightarrow> set ?as \<inter> set (allCards (mcols st)) = {}"
      by blast+
  qed
  have wf': "wfRun nB nS h0 ?st'"
    by (rule fold_mergeCard_wfRun [OF wf uq as tl])
  have shape': "length (mcols ?st') = length (tcols tg)"
    "\<And>j. col_id (mcols ?st' ! j) = col_id (tcols tg ! j)"
    "\<And>j. col_title (mcols ?st' ! j) = col_title (tcols tg ! j)"
    using fold_mergeCard_shape [of t ?as st] len shape by simp_all
  have settled': "\<And>i t' a. i < Suc k \<Longrightarrow> targetOf tg (inc ! i) = Some t'
        \<Longrightarrow> a \<in> set (cards (inc ! i)) \<Longrightarrow> settledFor ?st' t' (h0 a)"
  proof -
    fix i t' a assume i: "i < Suc k" "targetOf tg (inc ! i) = Some t'" "a \<in> set (cards (inc ! i))"
    show "settledFor ?st' t' (h0 a)"
    proof (cases "i = k")
      case True
      with i t have "t' = t" by simp
      with True i(3) show ?thesis
        using fold_mergeCard_settles [OF wf uq as tl das] by simp
    next
      case False
      with i have ik: "i < k" by simp
      from settled [OF ik i(2,3)] have s: "settledFor st t' (h0 a)" .
      have "\<And>b. b \<in> set ?as \<Longrightarrow> card_id (h0 b) \<noteq> card_id (h0 a)"
      proof -
        fix b assume "b \<in> set ?as"
        from ids_differ [OF uq addrs _ k False i(3) this] ik k
        show "card_id (h0 b) \<noteq> card_id (h0 a)" by simp
      qed
      then show ?thesis
        by (intro fold_mergeCard_settled_other [OF wf uq as tl s])
    qed
  qed
  have pending': "\<And>i p. Suc k \<le> i \<Longrightarrow> i < length inc \<Longrightarrow> refs ! i = Pushed p
        \<Longrightarrow> pendingCol (visitedIds h0 inc (Suc k)) ?st' p (cards (inc ! i))"
  proof -
    fix i p assume i: "Suc k \<le> i" "i < length inc" "refs ! i = Pushed p"
    then have ki: "k \<le> i" "k \<noteq> i" by simp_all
    from d(5) [OF i(2)] i(3) len have pl: "p < length (mcols st)" by auto
    have "pendingCol (?V \<union> (\<lambda>a. card_id (h0 a)) ` set ?as) ?st' p (cards (inc ! i))"
    proof (rule fold_mergeCard_pending [OF wf uq as tl pl pending [OF ki(1) i(2,3)] das])
      show "\<And>a. a \<in> set ?as \<Longrightarrow> card_id (h0 a) \<notin> ?V" by (rule fresh)
      show "\<And>a b. a \<in> set ?as \<Longrightarrow> b \<in> set (cards (inc ! i)) \<Longrightarrow> card_id (h0 b) \<noteq> card_id (h0 a)"
        using ids_differ [OF uq addrs i(2) k] ki(2) by auto
      show "p = t \<Longrightarrow> set ?as \<inter> set (allCards (mcols st)) = {}"
        by (rule offp [OF i])
    qed
    then show "pendingCol (visitedIds h0 inc (Suc k)) ?st' p (cards (inc ! i))"
      by (simp add: visitedIds_Suc [OF k])
  qed
  have offboard': "\<And>i. Suc k \<le> i \<Longrightarrow> i < length inc \<Longrightarrow> refs ! i = Snap (inc ! i)
        \<Longrightarrow> set (cards (inc ! i)) \<inter> set (allCards (mcols ?st')) = {}"
  proof -
    fix i assume i: "Suc k \<le> i" "i < length inc" "refs ! i = Snap (inc ! i)"
    then have ki: "k \<le> i" "i \<noteq> k" by simp_all
    from columns_disjoint [OF addrs i(2) k ki(2)] offboard [OF ki(1) i(2,3)]
      fold_mergeCard_board [OF tl, of ?as]
    show "set (cards (inc ! i)) \<inter> set (allCards (mcols ?st')) = {}" by auto
  qed
  show ?thesis
    unfolding mc outerInv_def
    using wf' shape' settled' pending' offboard' by blast
qed

lemma outerInv_fold:
  assumes dec: "decided cols0 inc (refs, tg)" and po: "pushOrder inc (refs, tg)"
      and uq: "uniqueIds nB nS h0" and addrs: "allCards inc = [nB ..< nB + nS]"
      and init: "outerInv nB nS h0 inc refs tg 0 st"
      and k: "k \<le> length inc"
  shows "outerInv nB nS h0 inc refs tg k (fold (mergeColumn tg) (take k refs) st)"
  using k
proof (induction k)
  case 0
  with init show ?case by simp
next
  case (Suc k)
  then have k: "k < length inc" by simp
  from decided_facts(2) [OF dec] k have kr: "k < length refs" by simp
  from Suc have IH: "outerInv nB nS h0 inc refs tg k (fold (mergeColumn tg) (take k refs) st)"
    by simp
  have "fold (mergeColumn tg) (take (Suc k) refs) st
      = mergeColumn tg (refs ! k) (fold (mergeColumn tg) (take k refs) st)"
    using kr by (simp add: take_Suc_conv_app_nth)
  with outerInv_step [OF dec po uq addrs k IH] show ?case by simp
qed

subsection \<open>The first merge settles every card of the snapshot\<close>

text \<open>The facts about the state that the first merge ends in.\<close>

lemma first_merge_settles:
  assumes db: "distinct (map card_id (allCards (current :: board)))"
      and ds: "distinct (map card_id (allCards (incoming :: board)))"
  defines "nB \<equiv> length (allCards current)"
  defines "h0 \<equiv> (\<lambda>a. (allCards current @ allCards incoming) ! a)"
  defines "inc \<equiv> allocCols nB incoming"
  defines "stf \<equiv> mergeHeap inc \<lparr>mcols = allocCols 0 current, mheap = h0\<rparr>"
  shows "\<exists>tg. tg = mapsOf (tcols tg)
           \<and> length (mcols stf) = length (tcols tg)
           \<and> (\<forall>j. col_id (mcols stf ! j) = col_id (tcols tg ! j)
                  \<and> col_title (mcols stf ! j) = col_title (tcols tg ! j))
           \<and> (\<forall>i < length inc. \<exists>t. targetOf tg (inc ! i) = Some t
                  \<and> (\<forall>a \<in> set (cards (inc ! i)). settledFor stf t (h0 a)))"
proof -
  let ?nS = "length (allCards incoming)"
  let ?cols0 = "allocCols 0 current"
  let ?st0 = "\<lparr>mcols = ?cols0, mheap = h0\<rparr>"
  obtain refs tg where rt: "fold decideTarget inc ([], mapsOf ?cols0) = (refs, tg)"
    by (cases "fold decideTarget inc ([], mapsOf ?cols0)")
  from fold_decideTarget_decided [OF decided_init, of ?cols0 inc] rt
  have dec: "decided ?cols0 inc (refs, tg)" by simp
  have "pushOrder ([] @ inc) (fold decideTarget inc ([], mapsOf ?cols0))"
    by (rule fold_decideTarget_pushOrder [OF decided_init pushOrder_init])
  with rt have po: "pushOrder inc (refs, tg)" by simp
  note d = decided_facts [OF dec]
  have addrs: "allCards inc = [nB ..< nB + ?nS]"
    by (simp add: inc_def allCards_allocCols)
  have uq: "uniqueIds nB ?nS h0"
    unfolding nB_def h0_def by (rule uniqueIds_alloc [OF db ds])
  have "[0 ..< nB + ?nS] = [0 ..< nB] @ [nB ..< nB + ?nS]"
    by (rule upt_add_eq_append) simp
  then have all: "allCards (?cols0 @ [] @ inc) = [0 ..< nB + ?nS]"
    using addrs by (simp add: allCards_allocCols nB_def)
  have A: "set (allCards (tcols (snd ([] :: colref list, mapsOf ?cols0)))) \<subseteq> set (allCards (?cols0 @ []))"
    by simp
  have B: "distinct (allCards (?cols0 @ [] @ inc))"
    unfolding all by simp
  have C: "distinct (allCards (tcols (snd ([] :: colref list, mapsOf ?cols0))))"
    by (simp add: allCards_allocCols)
  from fold_decideTarget_addrs [OF decided_init A B C]
  have "set (allCards (tcols (snd (fold decideTarget inc ([], mapsOf ?cols0)))))
          \<subseteq> set (allCards (?cols0 @ [] @ inc))
      \<and> distinct (allCards (tcols (snd (fold decideTarget inc ([], mapsOf ?cols0)))))" .
  then have ta: "set (allCards (tcols tg)) \<subseteq> {..< nB + ?nS}" "distinct (allCards (tcols tg))"
    unfolding rt all by auto
  have onto: "\<exists>i < length inc. refs ! i = Pushed p"
    if p: "length ?cols0 \<le> p" "p < length (tcols tg)" for p
  proof -
    have "\<exists>i < length (fst (fold decideTarget inc ([], mapsOf ?cols0))).
            fst (fold decideTarget inc ([], mapsOf ?cols0)) ! i = Pushed p"
    proof (rule fold_decideTarget_onto [where ?cols0.0 = ?cols0])
      show "length ?cols0 \<le> p" by (rule p(1))
      show "p < length (tcols (snd (fold decideTarget inc ([], mapsOf ?cols0))))"
        using p(2) by (simp add: rt)
    qed simp
    with d(2) show ?thesis by (simp add: rt)
  qed
  let ?st1 = "?st0\<lparr>mcols := tcols tg\<rparr>"
  have mh: "stf = fold (mergeColumn tg) refs ?st1"
    using rt by (simp add: stf_def mergeHeap_def mapsOf_def)
  have pend: "pendingCol (visitedIds h0 inc 0) ?st1 p (cards (inc ! i))"
    if "i < length inc" "refs ! i = Pushed p" for i p
  proof -
    from d(5) [OF that(1)] that(2) have "cards (tcols tg ! p) = cards (inc ! i)" by auto
    then show ?thesis by (simp add: pendingCol_def)
  qed
  have off: "set (cards (inc ! i)) \<inter> set (allCards (tcols tg)) = {}"
    if i: "i < length inc" "refs ! i = Snap (inc ! i)" for i
  proof (rule ccontr)
    assume "set (cards (inc ! i)) \<inter> set (allCards (tcols tg)) \<noteq> {}"
    then obtain a where a: "a \<in> set (cards (inc ! i))" "a \<in> set (allCards (tcols tg))" by auto
    from a(2) obtain j where j: "j < length (tcols tg)" "a \<in> set (cards (tcols tg ! j))"
      by (auto simp: in_allCards)
    from column_addrs [OF addrs i(1)] a(1) have anB: "nB \<le> a" by auto
    show False
    proof (cases "j < length ?cols0")
      case True
      from d(3) have "take (length ?cols0) (tcols tg) ! j = ?cols0 ! j" by simp
      with True have "tcols tg ! j = ?cols0 ! j" by simp
      with j(2) True have "a \<in> set (allCards ?cols0)" by (auto simp: in_allCards)
      then have "a < nB" by (simp add: allCards_allocCols nB_def)
      with anB show False by simp
    next
      case False
      then have "length ?cols0 \<le> j" by simp
      from onto [OF this j(1)] obtain i' where i': "i' < length inc" "refs ! i' = Pushed j"
        by auto
      from d(5) [OF i'(1)] i'(2) have "tcols tg ! j = inc ! i'" by auto
      with j(2) have "a \<in> set (cards (inc ! i'))" by simp
      moreover from i i' have "i \<noteq> i'" by auto
      ultimately show False
        using columns_disjoint [OF addrs i(1) i'(1)] a(1) by auto
    qed
  qed
  have init: "outerInv nB ?nS h0 inc refs tg 0 ?st1"
    unfolding outerInv_def wfRun_def using ta pend off by simp
  from outerInv_fold [OF dec po uq addrs init, of "length inc"] d(2) mh
  have fin: "outerInv nB ?nS h0 inc refs tg (length inc) stf" by simp
  have "\<forall>i < length inc. \<exists>t. targetOf tg (inc ! i) = Some t
                  \<and> (\<forall>a \<in> set (cards (inc ! i)). settledFor stf t (h0 a))"
  proof (intro allI impI)
    fix i assume i: "i < length inc"
    have "targetOf tg (inc ! i) \<noteq> None"
      using d(5) [OF i]
    proof (elim disjE conjE exE)
      fix p assume p: "refs ! i = Pushed p" "p < length (tcols tg)" "tcols tg ! p = inc ! i"
      then have "inc ! i \<in> set (tcols tg)" by (metis nth_mem)
      then have "targetOf (mapsOf (tcols tg)) (inc ! i) \<noteq> None"
        by (auto simp: targetOf_None)
      with d(1) show ?thesis by simp
    qed
    then obtain t where t: "targetOf tg (inc ! i) = Some t" by auto
    with fin i have "\<forall>a \<in> set (cards (inc ! i)). settledFor stf t (h0 a)"
      by (auto simp: outerInv_def)
    with t show "\<exists>t. targetOf tg (inc ! i) = Some t
                  \<and> (\<forall>a \<in> set (cards (inc ! i)). settledFor stf t (h0 a))"
      by blast
  qed
  with fin d(1) show ?thesis
    unfolding outerInv_def by blast
qed

subsection \<open>Merging a snapshot twice\<close>

lemma find_map_view:
  "map_option h (find (\<lambda>a. P (h a)) xs) = find P (map h xs)"
  by (induction xs) simp_all

lemma findCardIn_view:
  assumes "length cols = length cols'"
      and "\<And>j. j < length cols \<Longrightarrow> map h (cards (cols ! j)) = map h' (cards (cols' ! j))"
  shows "map_option (\<lambda>(f, ci). (h f, ci)) (findCardIn h i cols x)
           = map_option (\<lambda>(f, ci). (h' f, ci)) (findCardIn h' i cols' x)"
  using assms
proof (induction cols cols' arbitrary: i rule: list_induct2)
  case Nil
  then show ?case by simp
next
  case (Cons c cols c' cols')
  from Cons.prems [of 0] have 0: "map h (cards c) = map h' (cards c')" by simp
  have "map_option h (find (\<lambda>a. card_id (h a) = x) (cards c))
          = map_option h' (find (\<lambda>a. card_id (h' a) = x) (cards c'))"
    by (simp add: find_map_view [where P = "\<lambda>c. card_id c = x"] 0)
  moreover have "map_option (\<lambda>(f, ci). (h f, ci)) (findCardIn h (Suc i) cols x)
           = map_option (\<lambda>(f, ci). (h' f, ci)) (findCardIn h' (Suc i) cols' x)"
  proof (rule Cons.IH)
    fix j assume "j < length cols"
    with Cons.prems [of "Suc j"] show "map h (cards (cols ! j)) = map h' (cards (cols' ! j))"
      by simp
  qed
  ultimately show ?case
    by (cases "find (\<lambda>a. card_id (h a) = x) (cards c)";
        cases "find (\<lambda>a. card_id (h' a) = x) (cards c')") simp_all
qed

lemma readBoard_eq:
  assumes "readBoard st = readBoard st'"
  shows "length (mcols st) = length (mcols st')"
    "\<And>j. j < length (mcols st) \<Longrightarrow> col_id (mcols st ! j) = col_id (mcols st' ! j)"
    "\<And>j. j < length (mcols st) \<Longrightarrow> col_title (mcols st ! j) = col_title (mcols st' ! j)"
    "\<And>j. j < length (mcols st) \<Longrightarrow>
       map (mheap st) (cards (mcols st ! j)) = map (mheap st') (cards (mcols st' ! j))"
proof -
  from assms have "length (readBoard st) = length (readBoard st')" by simp
  then show l: "length (mcols st) = length (mcols st')" by (simp add: readBoard_def)
  fix j assume j: "j < length (mcols st)"
  from assms have "readBoard st ! j = readBoard st' ! j" by simp
  with j l have e: "withCards (mcols st ! j) (map (mheap st) (cards (mcols st ! j)))
     = withCards (mcols st' ! j) (map (mheap st') (cards (mcols st' ! j)))"
    by (simp add: readBoard_def)
  from e show "col_id (mcols st ! j) = col_id (mcols st' ! j)" by (simp add: withCards_def)
  from e show "col_title (mcols st ! j) = col_title (mcols st' ! j)" by (simp add: withCards_def)
  from e show "map (mheap st) (cards (mcols st ! j)) = map (mheap st') (cards (mcols st' ! j))"
    by (simp add: withCards_def)
qed

text \<open>Whether a card is settled depends only on the board that the state holds.\<close>

lemma settledFor_transfer:
  assumes rb: "readBoard st = readBoard st'"
      and t: "t < length (mcols st)"
      and s: "settledFor st t c"
  shows "settledFor st' t c"
proof -
  note e = readBoard_eq [OF rb]
  from s obtain f ci where
    f: "findCardIn (mheap st) 0 (mcols st) (card_id c) = Some (f, ci)"
    and c: "contentStep c (mheap st f) = mheap st f"
    and p: "col_id (mcols st ! ci) = col_id (mcols st ! t) \<or> \<not> isPositionANewer c (mheap st f)"
    by (auto simp: settledFor_def)
  from findCardIn_Some0 [OF f] have ci: "ci < length (mcols st)" by simp
  from findCardIn_view [of "mcols st" "mcols st'" "mheap st" "mheap st'" 0 "card_id c"] e(1) e(4) f
  have "map_option (\<lambda>(f, ci). (mheap st' f, ci)) (findCardIn (mheap st') 0 (mcols st') (card_id c))
          = Some (mheap st f, ci)"
    by simp
  then obtain f' where
    f': "findCardIn (mheap st') 0 (mcols st') (card_id c) = Some (f', ci)"
    and v: "mheap st' f' = mheap st f"
    by (cases "findCardIn (mheap st') 0 (mcols st') (card_id c)") auto
  from c v have "contentStep c (mheap st' f') = mheap st' f'" by simp
  moreover from p v e(2) [OF ci] e(2) [OF t]
  have "col_id (mcols st' ! ci) = col_id (mcols st' ! t) \<or> \<not> isPositionANewer c (mheap st' f')"
    by simp
  ultimately show ?thesis
    using f' unfolding settledFor_def by blast
qed

text \<open>The cards at the addresses that parsing gives to a column.\<close>

lemma map_nth_window: "map (\<lambda>a. (xs @ ys @ zs) ! a) [length xs ..< length xs + length ys] = ys"
proof (rule nth_equalityI)
  show "length (map (\<lambda>a. (xs @ ys @ zs) ! a) [length xs ..< length xs + length ys]) = length ys"
    by simp
next
  fix i assume "i < length (map (\<lambda>a. (xs @ ys @ zs) ! a) [length xs ..< length xs + length ys])"
  then have "i < length ys" by simp
  then show "map (\<lambda>a. (xs @ ys @ zs) ! a) [length xs ..< length xs + length ys] ! i = ys ! i"
    by (simp add: nth_append)
qed

lemma allocCols_values:
  "i < length b \<Longrightarrow>
     map (\<lambda>a. (xs @ allCards b @ ys) ! a) (cards (allocCols (length xs) b ! i)) = cards (b ! i)"
proof (induction b arbitrary: xs i)
  case Nil
  then show ?case by simp
next
  case (Cons c cs)
  show ?case
  proof (cases i)
    case 0
    from map_nth_window [of xs "cards c" "allCards cs @ ys"] show ?thesis
      by (simp add: 0 withCards_def)
  next
    case (Suc j)
    with Cons.prems have j: "j < length cs" by simp
    from Cons.IH [OF j, of "xs @ cards c"] show ?thesis
      by (simp add: Suc)
  qed
qed

lemma withCards_withCards [simp]: "withCards (withCards c xs) ys = withCards c ys"
  by (simp add: withCards_def)

lemma withCards_cards [simp]: "withCards (c :: card column) (cards c) = c"
  by (simp add: withCards_def)

lemma readBoard_allocCols:
  "readBoard \<lparr>mcols = allocCols 0 b, mheap = (\<lambda>a. (allCards b @ ys) ! a)\<rparr> = b"
proof (rule nth_equalityI)
  show "length (readBoard \<lparr>mcols = allocCols 0 b, mheap = (\<lambda>a. (allCards b @ ys) ! a)\<rparr>) = length b"
    by (simp add: readBoard_def)
next
  fix i assume "i < length (readBoard \<lparr>mcols = allocCols 0 b, mheap = (\<lambda>a. (allCards b @ ys) ! a)\<rparr>)"
  then have i: "i < length b" by (simp add: readBoard_def)
  have n: "\<And>n. allocCols n b ! i = withCards (b ! i) (cards (allocCols n b ! i))"
    using i
  proof (induction b arbitrary: i)
    case Nil
    then show ?case by simp
  next
    case (Cons c cs)
    then show ?case by (cases i) simp_all
  qed
  from allocCols_values [OF i, of "[]" ys]
  have "map (\<lambda>a. (allCards b @ ys) ! a) (cards (allocCols 0 b ! i)) = cards (b ! i)" by simp
  with i n [of 0] show "readBoard \<lparr>mcols = allocCols 0 b, mheap = (\<lambda>a. (allCards b @ ys) ! a)\<rparr> ! i = b ! i"
    by (simp add: readBoard_def) (metis withCards_withCards withCards_cards)
qed

text \<open>The index maps look only at the keys of the columns.\<close>

lemma indexMap_cong:
  assumes "map key cols = map key' cols'"
  shows "indexMap key cols = indexMap key' cols'"
proof -
  from assms have "length cols = length cols'" by (metis length_map)
  then have "fold (\<lambda>(i, c) m. m(key c \<mapsto> i)) (enumerate n cols) m
      = fold (\<lambda>(i, c) m. m(key' c \<mapsto> i)) (enumerate n cols') m" for n m
    using assms by (induction cols cols' arbitrary: n m rule: list_induct2) simp_all
  then show ?thesis by (simp add: indexMap_def)
qed

lemma targetOf_view:
  assumes "map col_id cols = map col_id cols'" "map col_title cols = map col_title cols'"
      and "col_id c = col_id c'" "col_title c = col_title c'"
  shows "targetOf (mapsOf cols) c = targetOf (mapsOf cols') c'"
proof -
  from assms(2) have "map normTitle (map col_title cols) = map normTitle (map col_title cols')"
    by (rule arg_cong)
  then have "map (\<lambda>c. normTitle (col_title c)) cols = map (\<lambda>c. normTitle (col_title c)) cols'"
    by (simp only: map_map comp_def)
  then have "indexMap (\<lambda>c. normTitle (col_title c)) cols = indexMap (\<lambda>c. normTitle (col_title c)) cols'"
    by (rule indexMap_cong)
  moreover from assms(1) have "indexMap col_id cols = indexMap col_id cols'"
    by (rule indexMap_cong)
  ultimately show ?thesis
    using assms(3,4) by (simp add: targetOf_def mapsOf_def split: option.splits)
qed

text \<open>Step 2 pushes no column that has a target.\<close>

lemma fold_decideTarget_quiet:
  assumes "\<And>c. c \<in> set incoming \<Longrightarrow> targetOf tg c \<noteq> None"
  shows "fold decideTarget incoming (refs, tg) = (refs @ map Snap incoming, tg)"
  using assms
proof (induction incoming arbitrary: refs)
  case Nil
  then show ?case by simp
next
  case (Cons c cs)
  from Cons.prems [of c] have "targetOf tg c \<noteq> None" by simp
  then have "decideTarget c (refs, tg) = (refs @ [Snap c], tg)"
    by (auto simp: decideTarget_def targetOf_def split: option.splits)
  with Cons.IH [of "refs @ [Snap c]"] Cons.prems show ?case by simp
qed

text \<open>A merge of settled cards leaves the state as it is.\<close>

lemma mergeHeap_quiet:
  assumes "\<And>c. c \<in> set incoming \<Longrightarrow>
             \<exists>t. targetOf (mapsOf (mcols st)) c = Some t
                \<and> (\<forall>a \<in> set (cards c). mergeCard t a st = st)"
  shows "mergeHeap incoming st = st"
proof -
  let ?tg = "mapsOf (mcols st)"
  have "\<And>c. c \<in> set incoming \<Longrightarrow> targetOf ?tg c \<noteq> None"
    using assms by fastforce
  then have d: "fold decideTarget incoming ([], ?tg) = ([] @ map Snap incoming, ?tg)"
    by (rule fold_decideTarget_quiet)
  have col: "\<And>c. c \<in> set incoming \<Longrightarrow> mergeColumn ?tg (Snap c) st = st"
  proof -
    fix c assume "c \<in> set incoming"
    with assms obtain t where t: "targetOf ?tg c = Some t"
      and q: "\<forall>a \<in> set (cards c). mergeCard t a st = st" by blast
    have "\<And>xs. set xs \<subseteq> set (cards c) \<Longrightarrow> fold (mergeCard t) xs st = st"
    proof -
      fix xs show "set xs \<subseteq> set (cards c) \<Longrightarrow> fold (mergeCard t) xs st = st"
        using q by (induction xs) auto
    qed
    then have "fold (mergeCard t) (cards c) st = st" by simp
    with t show "mergeColumn ?tg (Snap c) st = st"
      by (simp add: mergeColumn_def colOf_def)
  qed
  have "\<And>cs. set cs \<subseteq> set incoming \<Longrightarrow> fold (mergeColumn ?tg) (map Snap cs) st = st"
  proof -
    fix cs show "set cs \<subseteq> set incoming \<Longrightarrow> fold (mergeColumn ?tg) (map Snap cs) st = st"
      using col by (induction cs) auto
  qed
  then have f: "fold (mergeColumn ?tg) (map Snap incoming) st = st" by simp
  have "st\<lparr>mcols := mcols st\<rparr> = st" by simp
  with d f show ?thesis
    by (simp add: mergeHeap_def mapsOf_def)
qed

lemma col_id_allocCols_nth: "i < length b \<Longrightarrow> col_id (allocCols n b ! i) = col_id (b ! i)"
  by (metis length_allocCols map_col_id_allocCols nth_map)

lemma col_title_allocCols_nth: "i < length b \<Longrightarrow> col_title (allocCols n b ! i) = col_title (b ! i)"
  by (metis length_allocCols map_col_title_allocCols nth_map)

lemma map_col_id_readBoard [simp]: "map col_id (readBoard st) = map col_id (mcols st)"
  by (simp add: readBoard_def)

lemma map_col_title_readBoard [simp]: "map col_title (readBoard st) = map col_title (mcols st)"
  by (simp add: readBoard_def)

text \<open>
  C2, as the claim states it, fails when a card id occurs twice, in the snapshot or on the
  board. A snapshot that passes \<open>Store.validateState\<close> may hold one card id in two
  columns: the first merge visits the card \<open>x\<close> of the snapshot's first column, whose
  position stamp is the newest, and moves the board's \<open>x\<close> to the end of column \<open>a\<close>; the
  visit of the \<open>x\<close> of the second column then finds the board's card with the position
  stamp it had, and moves it to the end of column \<open>b\<close>, before \<open>y\<close> is added. The second
  merge does the two moves again, and \<open>x\<close> ends behind \<open>y\<close>. A board may hold one card id
  twice because a merge put it there: merging a snapshot whose card \<open>x\<close> is in a column
  that the board does not have pushes that column with its card, beside the board's own
  \<open>x\<close>. Into that board, the first merge of a later snapshot with unique ids moves the
  board's own \<open>x\<close> behind the pushed one, and the second merge then finds the pushed one
  and overwrites its content.
\<close>

theorem merge_duplicate_id_counterexample:
  "distinct (map card_id (allCards dupBoard))
   \<and> \<not> distinct (map card_id (allCards dupSnapshot))
   \<and> map (\<lambda>c. map card_id (cards c)) (importMerge dupBoard dupSnapshot) = [[], [''x'', ''y'']]
   \<and> map (\<lambda>c. map card_id (cards c)) (importMerge (importMerge dupBoard dupSnapshot) dupSnapshot)
        = [[], [''y'', ''x'']]
   \<and> importMerge (importMerge dupBoard dupSnapshot) dupSnapshot \<noteq> importMerge dupBoard dupSnapshot
   \<and> distinct (map card_id (allCards twinBoard))
   \<and> distinct (map card_id (allCards twinSnapshot))
   \<and> distinct (map card_id (allCards laterSnapshot))
   \<and> map (\<lambda>c. map card_id (cards c)) (importMerge twinBoard twinSnapshot) = [[''x''], [''x'']]
   \<and> map (\<lambda>c. map title (cards c))
        (importMerge (importMerge twinBoard twinSnapshot) laterSnapshot) = [[], [''C'', ''B'']]
   \<and> map (\<lambda>c. map title (cards c))
        (importMerge (importMerge (importMerge twinBoard twinSnapshot) laterSnapshot) laterSnapshot)
        = [[], [''B'', ''B'']]
   \<and> importMerge (importMerge (importMerge twinBoard twinSnapshot) laterSnapshot) laterSnapshot
       \<noteq> importMerge (importMerge twinBoard twinSnapshot) laterSnapshot"
  by code_simp

text \<open>
  C2, amended. For a board in which no card id occurs twice and a snapshot in which no card
  id occurs twice, merging the snapshot into the result of merging it gives that result
  again.
\<close>

theorem merge_idempotent_unique_ids:
  assumes db: "distinct (map card_id (allCards current))"
      and ds: "distinct (map card_id (allCards incoming))"
  shows "importMerge (importMerge current incoming) incoming = importMerge current incoming"
proof -
  define h0 where "h0 = (\<lambda>a. (allCards current @ allCards incoming) ! a)"
  define inc where "inc = allocCols (length (allCards current)) incoming"
  define stf where "stf = mergeHeap inc \<lparr>mcols = allocCols 0 current, mheap = h0\<rparr>"
  define M where "M = importMerge current incoming"
  define h1 where "h1 = (\<lambda>a. (allCards M @ allCards incoming) ! a)"
  define inc' where "inc' = allocCols (length (allCards M)) incoming"
  define st1 where "st1 = \<lparr>mcols = allocCols 0 M, mheap = h1\<rparr>"
  have M: "M = readBoard stf"
    by (simp add: M_def importMerge_def stf_def inc_def h0_def)
  have rb: "readBoard stf = readBoard st1"
    unfolding st1_def h1_def M [symmetric] by (simp add: readBoard_allocCols)
  from first_merge_settles [OF db ds] obtain tg where
    tg: "tg = mapsOf (tcols tg)"
    and len: "length (mcols stf) = length (tcols tg)"
    and keys: "\<And>j. col_id (mcols stf ! j) = col_id (tcols tg ! j)
                 \<and> col_title (mcols stf ! j) = col_title (tcols tg ! j)"
    and settled: "\<And>i. i < length inc \<Longrightarrow> \<exists>t. targetOf tg (inc ! i) = Some t
                  \<and> (\<forall>a \<in> set (cards (inc ! i)). settledFor stf t (h0 a))"
    unfolding stf_def inc_def h0_def by blast
  have ids: "map col_id (mcols st1) = map col_id (tcols tg)"
  proof -
    have "map col_id (mcols st1) = map col_id (mcols stf)"
      by (simp add: st1_def M)
    also have "\<dots> = map col_id (tcols tg)"
      using len keys by (intro nth_equalityI) simp_all
    finally show ?thesis .
  qed
  have titles: "map col_title (mcols st1) = map col_title (tcols tg)"
  proof -
    have "map col_title (mcols st1) = map col_title (mcols stf)"
      by (simp add: st1_def M)
    also have "\<dots> = map col_title (tcols tg)"
      using len keys by (intro nth_equalityI) simp_all
    finally show ?thesis .
  qed
  have quiet: "\<exists>t. targetOf (mapsOf (mcols st1)) c = Some t
                \<and> (\<forall>a \<in> set (cards c). mergeCard t a st1 = st1)"
    if c: "c \<in> set inc'" for c
  proof -
    from c obtain i where i: "i < length incoming" and ci: "c = inc' ! i"
      by (auto simp: in_set_conv_nth inc'_def)
    from i have i': "i < length inc" by (simp add: inc_def)
    from settled [OF i'] obtain t where
      t: "targetOf tg (inc ! i) = Some t"
      and s: "\<forall>a \<in> set (cards (inc ! i)). settledFor stf t (h0 a)" by blast
    have "targetOf (mapsOf (mcols st1)) c = targetOf (mapsOf (tcols tg)) (inc ! i)"
      using ids titles i
      by (intro targetOf_view) (simp_all add: ci inc'_def inc_def col_id_allocCols_nth
          col_title_allocCols_nth)
    with tg t have t1: "targetOf (mapsOf (mcols st1)) c = Some t" by simp
    from tg t have "targetOf (mapsOf (tcols tg)) (inc ! i) = Some t" by simp
    from targetOf_Some [OF this] len have tl: "t < length (mcols stf)" by simp
    have v0: "map h0 (cards (inc ! i)) = cards (incoming ! i)"
      using allocCols_values [OF i, of "allCards current" "[]"]
      by (simp add: h0_def inc_def)
    have v1: "map h1 (cards c) = cards (incoming ! i)"
      using allocCols_values [OF i, of "allCards M" "[]"]
      by (simp add: h1_def inc'_def ci)
    have "mergeCard t a st1 = st1" if a: "a \<in> set (cards c)" for a
    proof -
      from a have "h1 a \<in> set (map h1 (cards c))" by simp
      then have "h1 a \<in> set (map h0 (cards (inc ! i)))" by (simp only: v0 v1)
      then obtain b where b: "b \<in> set (cards (inc ! i))" "h0 b = h1 a" by auto
      with s have "settledFor stf t (h1 a)" by auto
      from settledFor_transfer [OF rb tl this] have "settledFor st1 t (mheap st1 a)"
        by (simp add: st1_def)
      then show ?thesis by (rule settled_noop)
    qed
    with t1 show ?thesis by blast
  qed
  have "mergeHeap inc' st1 = st1"
    by (rule mergeHeap_quiet) (rule quiet)
  then have "importMerge M incoming = readBoard st1"
    by (simp add: importMerge_def inc'_def st1_def h1_def)
  with rb M show ?thesis by (simp add: M_def)
qed

theorem merge_idempotent_unique_ids_witness:
  "distinct (map card_id (allCards dupBoard))
   \<and> distinct (map card_id (allCards movedSnapshot))
   \<and> importMerge (importMerge dupBoard movedSnapshot) movedSnapshot
       = importMerge dupBoard movedSnapshot"
  using merge_idempotent_unique_ids [of dupBoard movedSnapshot]
  by (simp add: dupBoard_def movedSnapshot_def allCards_def plainColumn_def stampedCard_def)

end
